theory Spec2Isabelle
  imports Main "HOL-Library.Word" "HOL-Library.Multiset"
begin

unbundle bit_operations_syntax

section \<open>The environment of pa3.c\<close>

text \<open>
  \<^verbatim>\<open>pa3.c\<close> is compiled against \<^verbatim>\<open>types.h\<close>, \<^verbatim>\<open>list_head.h\<close> and \<^verbatim>\<open>vm.h\<close>, none of
  which belongs to the sources. The constants they define are parameters of the model:
  the number of page frames, the number of entries of a directory (which is also the
  number of directories of a page table: every loop of \<^verbatim>\<open>pa3.c\<close> over the outer table
  runs to \<^verbatim>\<open>NR_PTES_PER_PAGE\<close>), and the two access flags.
\<close>

record config =
  NR_PAGEFRAMES :: nat
  NR_PTES_PER_PAGE :: nat
  RW_READ :: "32 word"
  RW_WRITE :: "32 word"

text \<open>
  What the code and the spec take for granted about the constants: there is a frame and
  a slot, the loop counters (C \<^verbatim>\<open>int\<close>) and the products \<^verbatim>\<open>i * NR_PTES_PER_PAGE\<close> do not
  overflow, and the read flag and the write flag are two independent flags.
\<close>

definition config_ok :: "config \<Rightarrow> bool" where
  "config_ok cfg =
     (0 < NR_PAGEFRAMES cfg \<and> NR_PAGEFRAMES cfg < 2 ^ 31 \<and>
      0 < NR_PTES_PER_PAGE cfg \<and>
      (NR_PTES_PER_PAGE cfg + 1) * NR_PTES_PER_PAGE cfg < 2 ^ 31 \<and>
      RW_READ cfg \<noteq> RW_WRITE cfg \<and>
      (RW_WRITE cfg OR RW_READ cfg) \<noteq> RW_READ cfg \<and>
      (RW_WRITE cfg OR RW_READ cfg) \<noteq> RW_WRITE cfg)"

section \<open>Data\<close>

text \<open>
  Modelled from the spec: \<^verbatim>\<open>struct pte\<close> is declared in \<^verbatim>\<open>vm.h\<close>. The spec gives it the
  fields \<^verbatim>\<open>valid\<close>, \<^verbatim>\<open>writable\<close>, \<^verbatim>\<open>private\<close> and \<^verbatim>\<open>pfn\<close>; \<^verbatim>\<open>pa3.c\<close> only ever stores 0 and 1
  in \<^verbatim>\<open>private\<close> and tests it against 1.
\<close>

record pte =
  valid :: bool
  writable :: bool
  pfn :: nat
  private' :: bool

text \<open>
  A \<^verbatim>\<open>struct pte_directory\<close> is an array \<^verbatim>\<open>ptes\<close> of \<^verbatim>\<open>NR_PTES_PER_PAGE\<close> entries. A
  \<^verbatim>\<open>struct pagetable\<close> is an array \<^verbatim>\<open>outer_ptes\<close> of pointers to directories: directories
  live in a store, a pointer is an index into it, and \<open>None\<close> is the null pointer.
\<close>

type_synonym pte_directory = "pte list"

type_synonym pagetable = "nat option list"

record process =
  pid :: nat
  pagetable :: pagetable

text \<open>
  The globals of the simulator. Processes and directories are heap objects that are
  never released: \<open>procs\<close> and \<open>dirs\<close> are the two stores, an address is an index, and
  \<^verbatim>\<open>malloc\<close> appends. \<open>processes\<close> is the ready queue (the processes linked after the list
  head, first one first), \<open>current\<close> the running process, \<open>ptbr\<close> the process whose
  page table the base register points to (\<open>None\<close> when it is null).
\<close>

record state =
  procs :: "process list"
  dirs :: "pte_directory list"
  processes :: "nat list"
  current :: nat
  ptbr :: "nat option"
  mapcounts :: "32 word list"

datatype error = NullDereference | OutOfBounds

text \<open>
  \<^verbatim>\<open>malloc\<close> does not initialise what it returns, and \<^verbatim>\<open>pa3.c\<close> reads such storage in
  three places: the scratch entry of \<^verbatim>\<open>free_page\<close>, the new directory of \<^verbatim>\<open>alloc_page\<close>
  and the new page table of \<^verbatim>\<open>switch_process\<close>. The model gives fresh storage the
  all-zero content of the spec's cleared entry and empty directory.
\<close>

definition malloc_pte :: pte where
  "malloc_pte = \<lparr>valid = False, writable = False, pfn = 0, private' = False\<rparr>"

definition malloc_pte_directory :: "config \<Rightarrow> pte_directory" where
  "malloc_pte_directory cfg = replicate (NR_PTES_PER_PAGE cfg) malloc_pte"

definition malloc_pagetable :: "config \<Rightarrow> pagetable" where
  "malloc_pagetable cfg = replicate (NR_PTES_PER_PAGE cfg) None"

text \<open>
  Modelled from the spec: the list primitives of \<^verbatim>\<open>list_head.h\<close>. The ready queue is a
  sequence of processes; \<^verbatim>\<open>list_add\<close> links a process right after the list head, and
  \<^verbatim>\<open>list_for_each_entry\<close> visits the queue from the head on, so the search of
  \<^verbatim>\<open>switch_process\<close> returns the first process with the wanted identifier. A process
  that is linked while it is still linked stands twice in the sequence; an intrusive
  list is a sequence only as long as that does not happen, so what is proved about a
  search that finds nothing assumes a queue without repetition.
\<close>

definition list_add :: "nat \<Rightarrow> nat list \<Rightarrow> nat list" where
  "list_add new head = new # head"

fun list_for_each_entry :: "process list \<Rightarrow> nat \<Rightarrow> nat list \<Rightarrow> nat option" where
  "list_for_each_entry ps npid [] = None"
| "list_for_each_entry ps npid (p # q) =
     (if pid (ps ! p) = npid then Some p else list_for_each_entry ps npid q)"

text \<open>A counting \<^verbatim>\<open>for\<close> loop whose body can fail: the first failure ends the run.\<close>

fun for_loop :: "nat list \<Rightarrow> (nat \<Rightarrow> 's \<Rightarrow> error + 's) \<Rightarrow> 's \<Rightarrow> error + 's" where
  "for_loop [] body s = Inr s"
| "for_loop (i # is) body s =
     (case body i s of Inl e \<Rightarrow> Inl e | Inr s' \<Rightarrow> for_loop is body s')"

text \<open>Reading and writing through the pointers.\<close>

definition outer_pte :: "state \<Rightarrow> nat \<Rightarrow> nat \<Rightarrow> nat option" where
  "outer_pte st p i = pagetable (procs st ! p) ! i"

definition set_outer_pte :: "nat \<Rightarrow> nat \<Rightarrow> nat option \<Rightarrow> state \<Rightarrow> state" where
  "set_outer_pte p i d st =
     st\<lparr>procs := (procs st)[p := (procs st ! p)\<lparr>pagetable := (pagetable (procs st ! p))[i := d]\<rparr>]\<rparr>"

definition get_pte :: "state \<Rightarrow> nat \<Rightarrow> nat \<Rightarrow> pte" where
  "get_pte st a pos = dirs st ! a ! pos"

definition set_pte :: "nat \<Rightarrow> nat \<Rightarrow> pte \<Rightarrow> state \<Rightarrow> state" where
  "set_pte a pos e st = st\<lparr>dirs := (dirs st)[a := (dirs st ! a)[pos := e]]\<rparr>"

section \<open>alloc_page\<close>

text \<open>
  The three scans over the frames: \<open>marking\<close> fills \<^verbatim>\<open>store\<close>, \<open>count_allocated\<close> is
  the loop over \<^verbatim>\<open>cnt\<close>, which starts at 1, and \<open>search_min\<close> leaves \<^verbatim>\<open>pfn\<close> at its
  initial 0 when no slot of \<^verbatim>\<open>store\<close> is 0.
\<close>

definition marking :: "config \<Rightarrow> 32 word list \<Rightarrow> nat list" where
  "marking cfg mc = map (\<lambda>i. if 0 < mc ! i then 1 else 0) [0..<NR_PAGEFRAMES cfg]"

definition count_allocated :: "nat list \<Rightarrow> nat" where
  "count_allocated store = fold (\<lambda>s cnt. if s = 1 then cnt + 1 else cnt) store 1"

fun search_min :: "nat list \<Rightarrow> nat \<Rightarrow> nat" where
  "search_min [] i = 0"
| "search_min (s # store) i = (if s = 0 then i else search_min store (Suc i))"

text \<open>
  What \<^verbatim>\<open>alloc_page\<close> writes into the entry: \<^verbatim>\<open>valid\<close>, then \<^verbatim>\<open>writable\<close> when \<^verbatim>\<open>rw\<close> is one
  of the two values it tests for, then \<^verbatim>\<open>pfn\<close>. It does not write \<^verbatim>\<open>private\<close>.
\<close>

definition map_pte :: "config \<Rightarrow> 32 word \<Rightarrow> nat \<Rightarrow> pte \<Rightarrow> pte" where
  "map_pte cfg rw new_pfn e =
     (let e1 = e\<lparr>valid := True\<rparr>;
          e2 = (if rw = RW_READ cfg then e1\<lparr>writable := False\<rparr>
                else if rw = (RW_WRITE cfg OR RW_READ cfg) then e1\<lparr>writable := True\<rparr>
                else e1)
      in e2\<lparr>pfn := new_pfn\<rparr>)"

text \<open>The body of the last loop of \<^verbatim>\<open>alloc_page\<close>, for one outer index \<open>i\<close>.\<close>

definition alloc_page_map ::
  "config \<Rightarrow> nat \<Rightarrow> 32 word \<Rightarrow> nat \<Rightarrow> nat \<Rightarrow> state \<Rightarrow> error + state" where
  "alloc_page_map cfg vpn rw new_pfn i st =
     (if i * NR_PTES_PER_PAGE cfg \<le> vpn \<and> vpn < (i + 1) * NR_PTES_PER_PAGE cfg then
        (case ptbr st of
           None \<Rightarrow> Inl NullDereference
         | Some p \<Rightarrow>
             let pos = vpn mod NR_PTES_PER_PAGE cfg;
                 (a, st1) =
                   (case outer_pte st p i of
                      None \<Rightarrow>
                        (length (dirs st),
                         set_outer_pte p i (Some (length (dirs st)))
                           (st\<lparr>dirs := dirs st @ [malloc_pte_directory cfg]\<rparr>))
                    | Some a \<Rightarrow> (a, st));
                 st2 = set_pte a pos (map_pte cfg rw new_pfn (get_pte st1 a pos)) st1
             in Inr (st2\<lparr>mapcounts := (mapcounts st2)[new_pfn := mapcounts st2 ! new_pfn + 1]\<rparr>))
      else Inr st)"

text \<open>
  \<^verbatim>\<open>alloc_page\<close> returns an \<^verbatim>\<open>unsigned int\<close>: the frame number, or \<^verbatim>\<open>-1\<close>, which is the
  word \<open>- 1\<close>. Its first statement copies the page table of the current process into
  the table \<open>ptbr\<close> points to.
\<close>

definition alloc_page :: "config \<Rightarrow> state \<Rightarrow> nat \<Rightarrow> 32 word \<Rightarrow> error + (32 word \<times> state)" where
  "alloc_page cfg st vpn rw =
     (case ptbr st of
        None \<Rightarrow> Inl NullDereference
      | Some p \<Rightarrow>
          let st0 = st\<lparr>procs := (procs st)[p := (procs st ! p)\<lparr>pagetable := pagetable (procs st ! current st)\<rparr>]\<rparr>;
              store = marking cfg (mapcounts st0);
              cnt = count_allocated store
          in if cnt = NR_PAGEFRAMES cfg then Inr (- 1, st0)
             else
               let new_pfn = search_min store 0
               in (case for_loop [0..<NR_PTES_PER_PAGE cfg] (alloc_page_map cfg vpn rw new_pfn) st0 of
                     Inl e \<Rightarrow> Inl e
                   | Inr st' \<Rightarrow> Inr (word_of_nat new_pfn, st')))"

section \<open>free_page\<close>

definition free_page_unmap :: "config \<Rightarrow> nat \<Rightarrow> nat \<Rightarrow> state \<Rightarrow> error + state" where
  "free_page_unmap cfg vpn i st =
     (if i * NR_PTES_PER_PAGE cfg \<le> vpn \<and> vpn < (i + 1) * NR_PTES_PER_PAGE cfg then
        (case ptbr st of
           None \<Rightarrow> Inl NullDereference
         | Some p \<Rightarrow>
             (case outer_pte st p i of
                None \<Rightarrow> Inl NullDereference
              | Some a \<Rightarrow>
                  let pos = vpn mod NR_PTES_PER_PAGE cfg;
                      f = pfn (get_pte st a pos)
                  in if NR_PAGEFRAMES cfg \<le> f then Inl OutOfBounds
                     else
                       let mc = mapcounts st;
                           mc' = (if 1 < mc ! f then mc[f := mc ! f - 1]
                                  else if mc ! f = 1 then mc[f := 0]
                                  else mc)
                       in Inr (set_pte a pos malloc_pte (st\<lparr>mapcounts := mc'\<rparr>))))
      else Inr st)"

definition free_page :: "config \<Rightarrow> state \<Rightarrow> nat \<Rightarrow> error + state" where
  "free_page cfg st vpn = for_loop [0..<NR_PTES_PER_PAGE cfg] (free_page_unmap cfg vpn) st"

section \<open>handle_page_fault\<close>

text \<open>
  The three early exits call \<^verbatim>\<open>alloc_page\<close>, drop its result and return \<^verbatim>\<open>true\<close>. The
  outer table is read at \<^verbatim>\<open>vpn / NR_PTES_PER_PAGE\<close> with no check of the index.
\<close>

definition alloc_and_return_true ::
  "config \<Rightarrow> state \<Rightarrow> nat \<Rightarrow> 32 word \<Rightarrow> error + (bool \<times> state)" where
  "alloc_and_return_true cfg st vpn rw =
     (case alloc_page cfg st vpn rw of Inl e \<Rightarrow> Inl e | Inr (r, st') \<Rightarrow> Inr (True, st'))"

definition handle_page_fault ::
  "config \<Rightarrow> state \<Rightarrow> nat \<Rightarrow> 32 word \<Rightarrow> error + (bool \<times> state)" where
  "handle_page_fault cfg st vpn rw =
     (let pd_index = vpn div NR_PTES_PER_PAGE cfg;
          pos = vpn mod NR_PTES_PER_PAGE cfg
      in case ptbr st of
           None \<Rightarrow> alloc_and_return_true cfg st vpn rw
         | Some p \<Rightarrow>
             if NR_PTES_PER_PAGE cfg \<le> pd_index then Inl OutOfBounds
             else
               (case outer_pte st p pd_index of
                  None \<Rightarrow> alloc_and_return_true cfg st vpn rw
                | Some a \<Rightarrow>
                    let e = get_pte st a pos
                    in if \<not> valid e then alloc_and_return_true cfg st vpn rw
                       else if rw = RW_WRITE cfg \<and> \<not> writable e \<and> private' e then
                         if NR_PAGEFRAMES cfg \<le> pfn e then Inl OutOfBounds
                         else if 1 < mapcounts st ! pfn e then
                           alloc_and_return_true cfg
                             (st\<lparr>mapcounts := (mapcounts st)[pfn e := mapcounts st ! pfn e - 1]\<rparr>)
                             vpn (rw OR RW_READ cfg)
                         else Inr (True, set_pte a pos (e\<lparr>writable := True, private' := False\<rparr>) st)
                       else Inr (False, st)))"

section \<open>switch_process\<close>

text \<open>The first pair of loops of the fork: every valid entry of the running table.\<close>

definition fork_share_pte :: "config \<Rightarrow> nat \<Rightarrow> nat \<Rightarrow> state \<Rightarrow> error + state" where
  "fork_share_pte cfg a j st =
     (let e = get_pte st a j
      in if valid e then
           if NR_PAGEFRAMES cfg \<le> pfn e then Inl OutOfBounds
           else
             let st1 = st\<lparr>mapcounts := (mapcounts st)[pfn e := mapcounts st ! pfn e + 1]\<rparr>
             in if writable e then Inr (set_pte a j (e\<lparr>writable := False, private' := True\<rparr>) st1)
                else Inr st1
         else Inr st)"

definition fork_share :: "config \<Rightarrow> nat \<Rightarrow> state \<Rightarrow> error + state" where
  "fork_share cfg i st =
     (case ptbr st of
        None \<Rightarrow> Inl NullDereference
      | Some p \<Rightarrow>
          (case outer_pte st p i of
             None \<Rightarrow> Inr st
           | Some a \<Rightarrow> for_loop [0..<NR_PTES_PER_PAGE cfg] (fork_share_pte cfg a) st))"

text \<open>
  The second loop: a new directory per directory of the running table, filled by
  \<^verbatim>\<open>memcpy\<close>, and stored in the new page table.
\<close>

definition fork_copy :: "nat \<Rightarrow> state \<times> pagetable \<Rightarrow> error + state \<times> pagetable" where
  "fork_copy i s =
     (case s of (st, new_pagetable) \<Rightarrow>
        (case ptbr st of
           None \<Rightarrow> Inl NullDereference
         | Some p \<Rightarrow>
             (case outer_pte st p i of
                None \<Rightarrow> Inr (st, new_pagetable)
              | Some a \<Rightarrow>
                  Inr (st\<lparr>dirs := dirs st @ [dirs st ! a]\<rparr>,
                       new_pagetable[i := Some (length (dirs st))]))))"

definition fork :: "config \<Rightarrow> state \<Rightarrow> nat \<Rightarrow> error + state" where
  "fork cfg st npid =
     (case for_loop [0..<NR_PTES_PER_PAGE cfg] (fork_share cfg) st of
        Inl e \<Rightarrow> Inl e
      | Inr st1 \<Rightarrow>
          (case for_loop [0..<NR_PTES_PER_PAGE cfg] fork_copy (st1, malloc_pagetable cfg) of
             Inl e \<Rightarrow> Inl e
           | Inr (st2, new_pagetable) \<Rightarrow>
               let new_process = length (procs st2)
               in Inr (st2\<lparr>procs := procs st2 @ [\<lparr>pid = npid, pagetable = new_pagetable\<rparr>],
                           processes := list_add (current st2) (processes st2),
                           current := new_process,
                           ptbr := Some new_process\<rparr>)))"

definition switch_process :: "config \<Rightarrow> state \<Rightarrow> nat \<Rightarrow> error + state" where
  "switch_process cfg st npid =
     (case list_for_each_entry (procs st) npid (processes st) of
        Some p \<Rightarrow>
          Inr (st\<lparr>processes := list_add (current st) (processes st),
                  current := p,
                  ptbr := Some p\<rparr>)
      | None \<Rightarrow> fork cfg st npid)"

section \<open>Running the simulator\<close>

text \<open>
  Modelled from the spec: the globals are defined by the framework, outside \<^verbatim>\<open>pa3.c\<close>.
  In the initial state every frame is free, the ready queue is empty, the one process
  has an empty page table and \<open>ptbr\<close> points to it.
\<close>

definition init_state :: "config \<Rightarrow> state" where
  "init_state cfg =
     \<lparr>procs = [\<lparr>pid = 0, pagetable = malloc_pagetable cfg\<rparr>],
      dirs = [],
      processes = [],
      current = 0,
      ptbr = Some 0,
      mapcounts = replicate (NR_PAGEFRAMES cfg) 0\<rparr>"

text \<open>The four operations a driver issues, and a run of them that stops at a crash.\<close>

datatype operation = Alloc nat "32 word" | Free nat | Fault nat "32 word" | Switch nat

fun step :: "config \<Rightarrow> state \<Rightarrow> operation \<Rightarrow> error + state" where
  "step cfg st (Alloc vpn rw) =
     (case alloc_page cfg st vpn rw of Inl e \<Rightarrow> Inl e | Inr (r, st') \<Rightarrow> Inr st')"
| "step cfg st (Free vpn) = free_page cfg st vpn"
| "step cfg st (Fault vpn rw) =
     (case handle_page_fault cfg st vpn rw of Inl e \<Rightarrow> Inl e | Inr (r, st') \<Rightarrow> Inr st')"
| "step cfg st (Switch npid) = switch_process cfg st npid"

fun run :: "config \<Rightarrow> state \<Rightarrow> operation list \<Rightarrow> error + state" where
  "run cfg st [] = Inr st"
| "run cfg st (x # xs) = (case step cfg st x of Inl e \<Rightarrow> Inl e | Inr st' \<Rightarrow> run cfg st' xs)"

text \<open>
  A small machine for the concrete runs: three frames, directories of two entries (so
  four pages per process), read flag 1 and write flag 2.
\<close>

definition small :: config where
  "small = \<lparr>NR_PAGEFRAMES = 3, NR_PTES_PER_PAGE = 2, RW_READ = 1, RW_WRITE = 2\<rparr>"

section \<open>Vocabulary of the properties\<close>

text \<open>The directories a page table points to, and those of all processes.\<close>

definition table_dirs :: "pagetable \<Rightarrow> nat list" where
  "table_dirs pt = concat (map (\<lambda>d. case d of None \<Rightarrow> [] | Some a \<Rightarrow> [a]) pt)"

definition all_dirs :: "state \<Rightarrow> nat list" where
  "all_dirs st = concat (map (\<lambda>p. table_dirs (pagetable p)) (procs st))"

text \<open>
  The shape every state of a run has: the arrays have their declared sizes, every
  pointer points into its store, \<open>ptbr\<close> points to the table of the running process,
  no directory is reachable through two slots, and every entry holds a frame number.
\<close>

definition state_ok :: "config \<Rightarrow> state \<Rightarrow> bool" where
  "state_ok cfg st =
     (length (mapcounts st) = NR_PAGEFRAMES cfg \<and>
      current st < length (procs st) \<and>
      ptbr st = Some (current st) \<and>
      list_all (\<lambda>p. p < length (procs st)) (processes st) \<and>
      list_all (\<lambda>p. length (pagetable p) = NR_PTES_PER_PAGE cfg) (procs st) \<and>
      list_all (\<lambda>d. length d = NR_PTES_PER_PAGE cfg \<and> list_all (\<lambda>e. pfn e < NR_PAGEFRAMES cfg) d)
        (dirs st) \<and>
      list_all (\<lambda>a. a < length (dirs st)) (all_dirs st) \<and>
      distinct (all_dirs st))"

text \<open>The number of valid entries that name frame \<open>f\<close>: in a directory, and in all tables.\<close>

definition dir_refs :: "nat \<Rightarrow> pte_directory \<Rightarrow> nat" where
  "dir_refs f d = length (filter (\<lambda>e. valid e \<and> pfn e = f) d)"

definition refs :: "state \<Rightarrow> nat \<Rightarrow> nat" where
  "refs st f = sum_list (map (\<lambda>a. dir_refs f (dirs st ! a)) (all_dirs st))"

definition free_frames :: "state \<Rightarrow> nat" where
  "free_frames st = length (filter (\<lambda>m. m = 0) (mapcounts st))"

text \<open>The frame \<^verbatim>\<open>alloc_page\<close> picks when it goes on: the result of its third scan.\<close>

definition lowest_free :: "config \<Rightarrow> state \<Rightarrow> nat" where
  "lowest_free cfg st = search_min (marking cfg (mapcounts st)) 0"

text \<open>The state after \<^verbatim>\<open>alloc_page\<close> has stored a fresh directory in slot \<open>i\<close> of process \<open>p\<close>.\<close>

definition new_directory :: "config \<Rightarrow> nat \<Rightarrow> nat \<Rightarrow> state \<Rightarrow> state" where
  "new_directory cfg p i st =
     set_outer_pte p i (Some (length (dirs st))) (st\<lparr>dirs := dirs st @ [malloc_pte_directory cfg]\<rparr>)"

section \<open>The fork in closed form\<close>

text \<open>
  What the first pair of loops of the fork does to one entry, to the counts for one
  directory, and to the directories and counts for one slot of the running table; and
  the page table the second loop builds, whose directories are appended to the store
  from address \<open>L\<close> on.
\<close>

definition cow :: "pte \<Rightarrow> pte" where
  "cow e = (if valid e \<and> writable e then e\<lparr>writable := False, private' := True\<rparr> else e)"

definition count_up :: "pte list \<Rightarrow> 32 word list \<Rightarrow> 32 word list" where
  "count_up d mc = fold (\<lambda>e mc. if valid e then mc[pfn e := mc ! pfn e + 1] else mc) d mc"

definition share_step :: "nat \<Rightarrow> pte list list \<times> 32 word list \<Rightarrow> pte list list \<times> 32 word list" where
  "share_step a s = (case s of (ds, mc) \<Rightarrow> (ds[a := map cow (ds ! a)], count_up (ds ! a) mc))"

fun copy_slots :: "nat \<Rightarrow> pagetable \<Rightarrow> pagetable" where
  "copy_slots L [] = []"
| "copy_slots L (None # pt) = None # copy_slots L pt"
| "copy_slots L (Some a # pt) = Some L # copy_slots (Suc L) pt"

definition shared :: "state \<Rightarrow> pte list list \<times> 32 word list" where
  "shared st = fold share_step (table_dirs (pagetable (procs st ! current st))) (dirs st, mapcounts st)"

section \<open>Concrete states\<close>

text \<open>
  The small machine after process 0 has mapped page 0 for reading and writing and
  process 1 has been forked from it: both map page 0 to frame 0, read-only and private.
\<close>

definition forked :: state where
  "forked =
     \<lparr>procs = [\<lparr>pid = 0, pagetable = [Some 0, None]\<rparr>, \<lparr>pid = 1, pagetable = [Some 1, None]\<rparr>],
      dirs = [[\<lparr>valid = True, writable = False, pfn = 0, private' = True\<rparr>,
               \<lparr>valid = False, writable = False, pfn = 0, private' = False\<rparr>],
              [\<lparr>valid = True, writable = False, pfn = 0, private' = True\<rparr>,
               \<lparr>valid = False, writable = False, pfn = 0, private' = False\<rparr>]],
      processes = [0],
      current = 1,
      ptbr = Some 1,
      mapcounts = [2, 0, 0]\<rparr>"

text \<open>
  The same machine after process 1 has written to page 0 (and got frame 1) and process 0
  runs again: process 0 is the only one left on frame 0, its entry still private.
\<close>

definition sole_owner :: state where
  "sole_owner =
     \<lparr>procs = [\<lparr>pid = 0, pagetable = [Some 0, None]\<rparr>, \<lparr>pid = 1, pagetable = [Some 1, None]\<rparr>],
      dirs = [[\<lparr>valid = True, writable = False, pfn = 0, private' = True\<rparr>,
               \<lparr>valid = False, writable = False, pfn = 0, private' = False\<rparr>],
              [\<lparr>valid = True, writable = True, pfn = 1, private' = True\<rparr>,
               \<lparr>valid = False, writable = False, pfn = 0, private' = False\<rparr>]],
      processes = [1, 0],
      current = 0,
      ptbr = Some 0,
      mapcounts = [1, 1, 0]\<rparr>"

text \<open>
  Process 0 has mapped pages 0 and 1, and process 1 has been forked: frames 0 and 1 are
  shared, frame 2 is the only free one.
\<close>

definition one_frame_left :: state where
  "one_frame_left =
     \<lparr>procs = [\<lparr>pid = 0, pagetable = [Some 0, None]\<rparr>, \<lparr>pid = 1, pagetable = [Some 1, None]\<rparr>],
      dirs = [[\<lparr>valid = True, writable = False, pfn = 0, private' = True\<rparr>,
               \<lparr>valid = True, writable = False, pfn = 1, private' = True\<rparr>],
              [\<lparr>valid = True, writable = False, pfn = 0, private' = True\<rparr>,
               \<lparr>valid = True, writable = False, pfn = 1, private' = True\<rparr>]],
      processes = [0],
      current = 1,
      ptbr = Some 1,
      mapcounts = [2, 2, 0]\<rparr>"

text \<open>The small machine after process 0 has mapped page 0 for reading and writing.\<close>

definition one_page :: state where
  "one_page =
     \<lparr>procs = [\<lparr>pid = 0, pagetable = [Some 0, None]\<rparr>],
      dirs = [[\<lparr>valid = True, writable = True, pfn = 0, private' = False\<rparr>,
               \<lparr>valid = False, writable = False, pfn = 0, private' = False\<rparr>]],
      processes = [],
      current = 0,
      ptbr = Some 0,
      mapcounts = [1, 0, 0]\<rparr>"

text \<open>
  The machine with one free frame after process 1 has written to page 0: the count of
  frame 0 is 1, and page 0 of both processes is still on frame 0.
\<close>

definition count_lost :: state where
  "count_lost =
     \<lparr>procs = [\<lparr>pid = 0, pagetable = [Some 0, None]\<rparr>, \<lparr>pid = 1, pagetable = [Some 1, None]\<rparr>],
      dirs = [[\<lparr>valid = True, writable = False, pfn = 0, private' = True\<rparr>,
               \<lparr>valid = True, writable = False, pfn = 1, private' = True\<rparr>],
              [\<lparr>valid = True, writable = False, pfn = 0, private' = True\<rparr>,
               \<lparr>valid = True, writable = False, pfn = 1, private' = True\<rparr>]],
      processes = [0],
      current = 1,
      ptbr = Some 1,
      mapcounts = [1, 2, 0]\<rparr>"

section \<open>Loops and scans\<close>

lemma for_loop_append:
  "for_loop (xs @ ys) body s =
     (case for_loop xs body s of Inl e \<Rightarrow> Inl e | Inr s' \<Rightarrow> for_loop ys body s')"
  by (induction xs arbitrary: s) (auto split: sum.splits)

lemma for_loop_skip:
  "(\<And>i s. i \<in> set xs \<Longrightarrow> body i s = Inr s) \<Longrightarrow> for_loop xs body s = Inr s"
  by (induction xs arbitrary: s) auto

lemma for_loop_upt_single:
  assumes "k < n" and "\<And>i s. i < n \<Longrightarrow> i \<noteq> k \<Longrightarrow> body i s = Inr s"
  shows "for_loop [0..<n] body s = body k s"
proof -
  have split: "[0..<n] = [0..<k] @ k # [Suc k..<n]"
    using assms(1) by (metis le0 less_imp_le_nat upt_add_eq_append upt_conv_Cons le_add_diff_inverse)
  have a: "for_loop [0..<k] body s = Inr s"
    using assms by (intro for_loop_skip) auto
  have b: "\<And>s'. for_loop [Suc k..<n] body s' = Inr s'"
    using assms by (intro for_loop_skip) auto
  show ?thesis
    by (simp add: split for_loop_append a b split: sum.splits)
qed

lemma for_loop_upt_none:
  assumes "\<And>i s. i < n \<Longrightarrow> body i s = Inr s"
  shows "for_loop [0..<n] body s = Inr s"
  using assms by (intro for_loop_skip) auto

lemma for_loop_upt_Suc:
  "for_loop [0..<Suc n] body s =
     (case for_loop [0..<n] body s of Inl e \<Rightarrow> Inl e | Inr s' \<Rightarrow> body n s')"
  by (simp add: for_loop_append split: sum.splits)

lemma slot_index:
  assumes "0 < (n::nat)"
  shows "(i * n \<le> v \<and> v < (i + 1) * n) = (i = v div n)"
proof
  assume "i * n \<le> v \<and> v < (i + 1) * n"
  then show "i = v div n"
    using assms by (metis Suc_eq_plus1 div_nat_eqI mult.commute)
next
  assume "i = v div n"
  then show "i * n \<le> v \<and> v < (i + 1) * n"
    using assms by (simp add: dividend_less_div_times)
qed

lemma count_allocated_fold:
  "fold (\<lambda>s cnt. if s = (1::nat) then cnt + 1 else cnt) (map (\<lambda>m. if P m then 1 else 0) mc) c =
     c + length (filter P mc)"
  by (induction mc arbitrary: c) auto

lemma marking_conv:
  "length mc = NR_PAGEFRAMES cfg \<Longrightarrow> marking cfg mc = map (\<lambda>m. if 0 < m then 1 else 0) mc"
  by (auto simp: marking_def intro!: nth_equalityI)

lemma count_allocated_marking:
  assumes "length mc = NR_PAGEFRAMES cfg"
  shows "count_allocated (marking cfg mc) = Suc (length (filter (\<lambda>m. m \<noteq> 0) mc))"
  using assms
  using count_allocated_fold [of "\<lambda>m. 0 < m" mc 1]
  by (simp add: count_allocated_def marking_conv word_gt_0)

lemma filter_zero_nonzero:
  "length (filter (\<lambda>m. m \<noteq> (0::'a::zero)) mc) + length (filter (\<lambda>m. m = 0) mc) = length mc"
  by (induction mc) auto

lemma search_min_first:
  "k < length store \<Longrightarrow> store ! k = 0 \<Longrightarrow> (\<And>j. j < k \<Longrightarrow> store ! j \<noteq> 0) \<Longrightarrow>
     search_min store i = i + k"
proof (induction store arbitrary: i k)
  case Nil
  then show ?case by simp
next
  case (Cons s store)
  show ?case
  proof (cases k)
    case 0
    with Cons.prems show ?thesis by simp
  next
    case (Suc k')
    have "s \<noteq> 0" using Cons.prems(3)[of 0] Suc by simp
    moreover have "search_min store (Suc i) = Suc i + k'"
    proof (rule Cons.IH)
      show "k' < length store" using Cons.prems(1) Suc by simp
      show "store ! k' = 0" using Cons.prems(2) Suc by simp
      show "store ! j \<noteq> 0" if "j < k'" for j
        using Cons.prems(3)[of "Suc j"] that Suc by simp
    qed
    ultimately show ?thesis using Suc by simp
  qed
qed

lemma search_min_none:
  "(\<And>j. j < length store \<Longrightarrow> store ! j \<noteq> 0) \<Longrightarrow> search_min store i = 0"
proof (induction store arbitrary: i)
  case Nil
  then show ?case by simp
next
  case (Cons s store)
  have "s \<noteq> 0" using Cons.prems[of 0] by simp
  moreover have "search_min store (Suc i) = 0"
    using Cons.prems by (intro Cons.IH) force
  ultimately show ?case by simp
qed

lemma first_zero_exists:
  assumes "0 < length (filter (\<lambda>m. m = (0::'a::zero)) mc)"
  shows "\<exists>k < length mc. mc ! k = 0 \<and> (\<forall>j<k. mc ! j \<noteq> 0)"
proof -
  from assms obtain m where "m \<in> set mc" "m = 0"
    by (metis (mono_tags, lifting) filter_False length_greater_0_conv)
  then obtain i where i: "i < length mc" "mc ! i = 0" by (auto simp: in_set_conv_nth)
  define k where "k = (LEAST i. i < length mc \<and> mc ! i = 0)"
  have "k < length mc \<and> mc ! k = 0" unfolding k_def using i by (metis (mono_tags, lifting) LeastI)
  moreover have "\<forall>j<k. mc ! j \<noteq> 0"
  proof (intro allI impI)
    fix j assume "j < k"
    then show "mc ! j \<noteq> 0"
      using not_less_Least[of j "\<lambda>i. i < length mc \<and> mc ! i = 0"] calculation unfolding k_def by auto
  qed
  ultimately show ?thesis by blast
qed

section \<open>Well-formed states\<close>

lemma set_pte_fields [simp]:
  "procs (set_pte a pos e st) = procs st"
  "processes (set_pte a pos e st) = processes st"
  "current (set_pte a pos e st) = current st"
  "ptbr (set_pte a pos e st) = ptbr st"
  "mapcounts (set_pte a pos e st) = mapcounts st"
  "length (dirs (set_pte a pos e st)) = length (dirs st)"
  by (simp_all add: set_pte_def)

lemma set_outer_pte_fields [simp]:
  "dirs (set_outer_pte p i d st) = dirs st"
  "processes (set_outer_pte p i d st) = processes st"
  "current (set_outer_pte p i d st) = current st"
  "ptbr (set_outer_pte p i d st) = ptbr st"
  "mapcounts (set_outer_pte p i d st) = mapcounts st"
  "length (procs (set_outer_pte p i d st)) = length (procs st)"
  by (simp_all add: set_outer_pte_def)

lemma outer_pte_set_pte [simp]: "outer_pte (set_pte a pos e st) p i = outer_pte st p i"
  by (simp add: outer_pte_def)

lemma outer_pte_mapcounts [simp]: "outer_pte (st\<lparr>mapcounts := mc\<rparr>) p i = outer_pte st p i"
  by (simp add: outer_pte_def)

lemma get_pte_mapcounts [simp]: "get_pte (st\<lparr>mapcounts := mc\<rparr>) a pos = get_pte st a pos"
  by (simp add: get_pte_def)

lemma set_pte_mapcounts: "set_pte a pos e (st\<lparr>mapcounts := mc\<rparr>) = (set_pte a pos e st)\<lparr>mapcounts := mc\<rparr>"
  by (simp add: set_pte_def)

lemma get_pte_set_pte:
  "a < length (dirs st) \<Longrightarrow> pos < length (dirs st ! a) \<Longrightarrow> get_pte (set_pte a pos e st) a pos = e"
  by (simp add: get_pte_def set_pte_def)

lemma set_table_dirs: "set (table_dirs pt) = {a. Some a \<in> set pt}"
  by (induction pt) (auto simp: table_dirs_def split: option.splits)

lemma table_dirs_append: "table_dirs (xs @ ys) = table_dirs xs @ table_dirs ys"
  by (simp add: table_dirs_def)

lemma table_dirs_Cons:
  "table_dirs (x # xs) = (case x of None \<Rightarrow> [] | Some a \<Rightarrow> [a]) @ table_dirs xs"
  by (simp add: table_dirs_def)

lemma table_dirs_replicate_None: "table_dirs (replicate k None) = []"
  by (induction k) (simp_all add: table_dirs_def)

lemma set_all_dirs:
  "set (all_dirs st) = {a. \<exists>p < length (procs st). Some a \<in> set (pagetable (procs st ! p))}"
proof -
  have "set (all_dirs st) = {a. \<exists>P \<in> set (procs st). Some a \<in> set (pagetable P)}"
    by (auto simp: all_dirs_def set_table_dirs)
  also have "\<dots> = {a. \<exists>p < length (procs st). Some a \<in> set (pagetable (procs st ! p))}"
    by (metis (no_types, lifting) in_set_conv_nth)
  finally show ?thesis .
qed

lemma outer_pte_in_all_dirs:
  "p < length (procs st) \<Longrightarrow> i < length (pagetable (procs st ! p)) \<Longrightarrow> outer_pte st p i = Some a \<Longrightarrow>
     a \<in> set (all_dirs st)"
  unfolding set_all_dirs outer_pte_def by (metis (mono_tags, lifting) mem_Collect_eq nth_mem)

lemma mset_table_dirs_update:
  assumes "i < length pt"
  shows "mset (table_dirs (pt[i := d])) + mset (table_dirs [pt ! i]) =
         mset (table_dirs pt) + mset (table_dirs [d])"
proof -
  have a: "pt[i := d] = take i pt @ d # drop (Suc i) pt"
    using assms by (simp add: upd_conv_take_nth_drop)
  have b: "pt = take i pt @ (pt ! i) # drop (Suc i) pt"
    using assms by (simp add: id_take_nth_drop)
  have "mset (table_dirs (take i pt @ d # drop (Suc i) pt)) + mset (table_dirs [pt ! i]) =
        mset (table_dirs (take i pt @ (pt ! i) # drop (Suc i) pt)) + mset (table_dirs [d])"
    by (simp add: table_dirs_append table_dirs_Cons)
  then show ?thesis using a b by simp
qed

lemma mset_all_dirs_update:
  assumes "p < length (procs st)"
  shows "mset (all_dirs (st\<lparr>procs := (procs st)[p := P]\<rparr>)) + mset (table_dirs (pagetable (procs st ! p))) =
         mset (all_dirs st) + mset (table_dirs (pagetable P))"
proof -
  let ?f = "\<lambda>p. table_dirs (pagetable p)"
  have a: "(procs st)[p := P] = take p (procs st) @ P # drop (Suc p) (procs st)"
    using assms by (simp add: upd_conv_take_nth_drop)
  have b: "procs st = take p (procs st) @ (procs st ! p) # drop (Suc p) (procs st)"
    using assms by (simp add: id_take_nth_drop)
  have "mset (concat (map ?f (take p (procs st) @ P # drop (Suc p) (procs st)))) + mset (?f (procs st ! p)) =
        mset (concat (map ?f (take p (procs st) @ (procs st ! p) # drop (Suc p) (procs st)))) + mset (?f P)"
    by simp
  then show ?thesis unfolding all_dirs_def using a b by simp
qed

lemma mset_all_dirs_set_outer_pte:
  assumes "p < length (procs st)" "i < length (pagetable (procs st ! p))" "outer_pte st p i = None"
  shows "mset (all_dirs (set_outer_pte p i (Some a) st)) = add_mset a (mset (all_dirs st))"
proof -
  let ?pt = "pagetable (procs st ! p)"
  have "mset (table_dirs (?pt[i := Some a])) = add_mset a (mset (table_dirs ?pt))"
    using mset_table_dirs_update [OF assms(2), of "Some a"] assms(3)
    by (simp add: outer_pte_def table_dirs_def)
  then show ?thesis
    using mset_all_dirs_update [OF assms(1), of "(procs st ! p)\<lparr>pagetable := ?pt[i := Some a]\<rparr>"]
    by (simp add: set_outer_pte_def)
qed

lemma state_okD:
  assumes "state_ok cfg st"
  shows "length (mapcounts st) = NR_PAGEFRAMES cfg"
    and "current st < length (procs st)"
    and "ptbr st = Some (current st)"
    and "\<And>p. p \<in> set (processes st) \<Longrightarrow> p < length (procs st)"
    and "\<And>p. p < length (procs st) \<Longrightarrow> length (pagetable (procs st ! p)) = NR_PTES_PER_PAGE cfg"
    and "\<And>a. a < length (dirs st) \<Longrightarrow> length (dirs st ! a) = NR_PTES_PER_PAGE cfg"
    and "\<And>a j. a < length (dirs st) \<Longrightarrow> j < NR_PTES_PER_PAGE cfg \<Longrightarrow> pfn (dirs st ! a ! j) < NR_PAGEFRAMES cfg"
    and "\<And>a. a \<in> set (all_dirs st) \<Longrightarrow> a < length (dirs st)"
    and "distinct (all_dirs st)"
proof -
  show "length (mapcounts st) = NR_PAGEFRAMES cfg" "current st < length (procs st)"
    "ptbr st = Some (current st)" "distinct (all_dirs st)"
    using assms by (simp_all add: state_ok_def)
  show "\<And>p. p \<in> set (processes st) \<Longrightarrow> p < length (procs st)"
    using assms by (simp add: state_ok_def list_all_iff)
  show "\<And>p. p < length (procs st) \<Longrightarrow> length (pagetable (procs st ! p)) = NR_PTES_PER_PAGE cfg"
    using assms by (simp add: state_ok_def list_all_iff)
  show l: "\<And>a. a < length (dirs st) \<Longrightarrow> length (dirs st ! a) = NR_PTES_PER_PAGE cfg"
    using assms by (simp add: state_ok_def list_all_iff)
  show "\<And>a j. a < length (dirs st) \<Longrightarrow> j < NR_PTES_PER_PAGE cfg \<Longrightarrow> pfn (dirs st ! a ! j) < NR_PAGEFRAMES cfg"
  proof -
    fix a j assume a: "a < length (dirs st)" and j: "j < NR_PTES_PER_PAGE cfg"
    have "dirs st ! a \<in> set (dirs st)" using a by simp
    then have "\<forall>e \<in> set (dirs st ! a). pfn e < NR_PAGEFRAMES cfg"
      using assms unfolding state_ok_def list_all_iff by blast
    moreover have "dirs st ! a ! j \<in> set (dirs st ! a)" using l[OF a] j by simp
    ultimately show "pfn (dirs st ! a ! j) < NR_PAGEFRAMES cfg" by blast
  qed
  show "\<And>a. a \<in> set (all_dirs st) \<Longrightarrow> a < length (dirs st)"
    using assms by (simp add: state_ok_def list_all_iff)
qed

lemma state_okI:
  assumes "length (mapcounts st) = NR_PAGEFRAMES cfg"
    and "current st < length (procs st)"
    and "ptbr st = Some (current st)"
    and "\<And>p. p \<in> set (processes st) \<Longrightarrow> p < length (procs st)"
    and "\<And>p. p < length (procs st) \<Longrightarrow> length (pagetable (procs st ! p)) = NR_PTES_PER_PAGE cfg"
    and "\<And>a. a < length (dirs st) \<Longrightarrow> length (dirs st ! a) = NR_PTES_PER_PAGE cfg"
    and "\<And>a j. a < length (dirs st) \<Longrightarrow> j < NR_PTES_PER_PAGE cfg \<Longrightarrow> pfn (dirs st ! a ! j) < NR_PAGEFRAMES cfg"
    and "\<And>a. a \<in> set (all_dirs st) \<Longrightarrow> a < length (dirs st)"
    and "distinct (all_dirs st)"
  shows "state_ok cfg st"
proof -
  have "\<forall>d \<in> set (dirs st). length d = NR_PTES_PER_PAGE cfg \<and> (\<forall>e \<in> set d. pfn e < NR_PAGEFRAMES cfg)"
    using assms(6,7) by (metis in_set_conv_nth)
  moreover have "\<forall>P \<in> set (procs st). length (pagetable P) = NR_PTES_PER_PAGE cfg"
    using assms(5) by (metis in_set_conv_nth)
  ultimately show ?thesis
    using assms(1-4,8,9) by (simp add: state_ok_def list_all_iff)
qed

lemma state_ok_outer_pte:
  assumes "state_ok cfg st" "p < length (procs st)" "i < NR_PTES_PER_PAGE cfg" "outer_pte st p i = Some a"
  shows "a \<in> set (all_dirs st)" "a < length (dirs st)" "length (dirs st ! a) = NR_PTES_PER_PAGE cfg"
proof -
  show a: "a \<in> set (all_dirs st)"
    using assms state_okD(5)[OF assms(1,2)] by (intro outer_pte_in_all_dirs[of p st i]) auto
  show b: "a < length (dirs st)" using a state_okD(8)[OF assms(1)] by blast
  show "length (dirs st ! a) = NR_PTES_PER_PAGE cfg" using b state_okD(6)[OF assms(1)] by blast
qed

lemma all_dirs_set_pte [simp]: "all_dirs (set_pte a pos e st) = all_dirs st"
  by (simp add: all_dirs_def set_pte_def)

lemma all_dirs_mapcounts [simp]: "all_dirs (st\<lparr>mapcounts := mc\<rparr>) = all_dirs st"
  by (simp add: all_dirs_def)

lemma state_ok_mapcounts:
  "state_ok cfg st \<Longrightarrow> length mc = NR_PAGEFRAMES cfg \<Longrightarrow> state_ok cfg (st\<lparr>mapcounts := mc\<rparr>)"
  by (simp add: state_ok_def all_dirs_def)

lemma state_ok_set_pte:
  assumes "state_ok cfg st" "pfn e < NR_PAGEFRAMES cfg"
  shows "state_ok cfg (set_pte a pos e st)"
proof (rule state_okI)
  note D = state_okD[OF assms(1)]
  show "length (mapcounts (set_pte a pos e st)) = NR_PAGEFRAMES cfg" using D by (simp add: set_pte_def)
  show "current (set_pte a pos e st) < length (procs (set_pte a pos e st))" using D by (simp add: set_pte_def)
  show "ptbr (set_pte a pos e st) = Some (current (set_pte a pos e st))" using D by (simp add: set_pte_def)
  show "\<And>p. p \<in> set (processes (set_pte a pos e st)) \<Longrightarrow> p < length (procs (set_pte a pos e st))"
    using D by (simp add: set_pte_def)
  show "\<And>p. p < length (procs (set_pte a pos e st)) \<Longrightarrow>
          length (pagetable (procs (set_pte a pos e st) ! p)) = NR_PTES_PER_PAGE cfg"
    using D by (simp add: set_pte_def)
  show "\<And>b. b < length (dirs (set_pte a pos e st)) \<Longrightarrow>
          length (dirs (set_pte a pos e st) ! b) = NR_PTES_PER_PAGE cfg"
    using D(6) by (case_tac "b = a") (simp_all add: set_pte_def)
  show "\<And>b j. b < length (dirs (set_pte a pos e st)) \<Longrightarrow> j < NR_PTES_PER_PAGE cfg \<Longrightarrow>
          pfn (dirs (set_pte a pos e st) ! b ! j) < NR_PAGEFRAMES cfg"
    using D(6,7) assms(2) by (case_tac "b = a"; case_tac "j = pos") (simp_all add: set_pte_def)
  show "\<And>b. b \<in> set (all_dirs (set_pte a pos e st)) \<Longrightarrow> b < length (dirs (set_pte a pos e st))"
    using D(8) by (simp add: all_dirs_def set_pte_def)
  show "distinct (all_dirs (set_pte a pos e st))" using D by simp
qed

lemma malloc_pte_directory_props:
  "length (malloc_pte_directory cfg) = NR_PTES_PER_PAGE cfg"
  "j < NR_PTES_PER_PAGE cfg \<Longrightarrow> malloc_pte_directory cfg ! j = malloc_pte"
  by (simp_all add: malloc_pte_directory_def)

lemma state_ok_new_directory:
  assumes ok: "state_ok cfg st" and p: "p < length (procs st)" and i: "i < NR_PTES_PER_PAGE cfg"
    and none: "outer_pte st p i = None"
    and d: "length d = NR_PTES_PER_PAGE cfg" "\<And>j. j < NR_PTES_PER_PAGE cfg \<Longrightarrow> pfn (d ! j) < NR_PAGEFRAMES cfg"
  defines "st' \<equiv> set_outer_pte p i (Some (length (dirs st))) (st\<lparr>dirs := dirs st @ [d]\<rparr>)"
  shows "state_ok cfg st'"
    and "mset (all_dirs st') = add_mset (length (dirs st)) (mset (all_dirs st))"
proof -
  note D = state_okD[OF ok]
  let ?s = "st\<lparr>dirs := dirs st @ [d]\<rparr>"
  have ad: "all_dirs ?s = all_dirs st" by (simp add: all_dirs_def)
  have len: "i < length (pagetable (procs ?s ! p))" using D(5)[OF p] i by simp
  show m: "mset (all_dirs st') = add_mset (length (dirs st)) (mset (all_dirs st))"
    unfolding st'_def
    using mset_all_dirs_set_outer_pte[of p ?s i "length (dirs st)"] p len none ad
    by (simp add: outer_pte_def)
  have set': "set (all_dirs st') = insert (length (dirs st)) (set (all_dirs st))"
    using m by (metis set_mset_add_mset_insert set_mset_mset)
  have fresh: "length (dirs st) \<notin> set (all_dirs st)" using D(8) by blast
  have dist: "distinct (all_dirs st')"
    using m D(9) fresh by (metis distinct.simps(2) mset.simps(2) mset_eq_imp_distinct_iff)
  show "state_ok cfg st'"
  proof (rule state_okI)
    show "length (mapcounts st') = NR_PAGEFRAMES cfg" using D by (simp add: st'_def set_outer_pte_def)
    show "current st' < length (procs st')" using D by (simp add: st'_def set_outer_pte_def)
    show "ptbr st' = Some (current st')" using D by (simp add: st'_def set_outer_pte_def)
    show "\<And>q. q \<in> set (processes st') \<Longrightarrow> q < length (procs st')"
      using D by (simp add: st'_def set_outer_pte_def)
    show "\<And>q. q < length (procs st') \<Longrightarrow> length (pagetable (procs st' ! q)) = NR_PTES_PER_PAGE cfg"
      using D(5) by (case_tac "q = p") (simp_all add: st'_def set_outer_pte_def)
    show "\<And>b. b < length (dirs st') \<Longrightarrow> length (dirs st' ! b) = NR_PTES_PER_PAGE cfg"
      using D d by (simp add: st'_def set_outer_pte_def nth_append)
    show "\<And>b j. b < length (dirs st') \<Longrightarrow> j < NR_PTES_PER_PAGE cfg \<Longrightarrow>
            pfn (dirs st' ! b ! j) < NR_PAGEFRAMES cfg"
      using D d by (simp add: st'_def set_outer_pte_def nth_append)
    show "\<And>b. b \<in> set (all_dirs st') \<Longrightarrow> b < length (dirs st')"
      using D(8) set' by (auto simp: st'_def set_outer_pte_def less_Suc_eq)
    show "distinct (all_dirs st')" by (rule dist)
  qed
qed

section \<open>What alloc_page does\<close>

lemma count_allocated_free_frames:
  assumes "state_ok cfg st"
  shows "(count_allocated (marking cfg (mapcounts st)) = NR_PAGEFRAMES cfg) = (free_frames st = 1)"
proof -
  have len: "length (mapcounts st) = NR_PAGEFRAMES cfg" using state_okD(1)[OF assms] .
  have "length (filter (\<lambda>m. m \<noteq> 0) (mapcounts st)) + free_frames st = NR_PAGEFRAMES cfg"
    using filter_zero_nonzero[of "mapcounts st"] len by (simp add: free_frames_def)
  then show ?thesis
    using count_allocated_marking[OF len] by auto
qed

lemma lowest_free_props:
  assumes "state_ok cfg st" "0 < free_frames st"
  shows "lowest_free cfg st < NR_PAGEFRAMES cfg"
    and "mapcounts st ! lowest_free cfg st = 0"
    and "\<And>g. g < lowest_free cfg st \<Longrightarrow> mapcounts st ! g \<noteq> 0"
proof -
  have len: "length (mapcounts st) = NR_PAGEFRAMES cfg" using state_okD(1)[OF assms(1)] .
  from first_zero_exists[of "mapcounts st"] assms(2)
  obtain k where k: "k < length (mapcounts st)" "mapcounts st ! k = 0" "\<forall>j<k. mapcounts st ! j \<noteq> 0"
    by (auto simp: free_frames_def)
  let ?store = "map (\<lambda>m. if 0 < m then 1 else (0::nat)) (mapcounts st)"
  have "search_min ?store 0 = 0 + k"
  proof (rule search_min_first)
    show "k < length ?store" using k(1) by simp
    show "?store ! k = 0" using k(1,2) by simp
    show "?store ! j \<noteq> 0" if "j < k" for j using that k(1,3) by (simp add: word_gt_0)
  qed
  then have eq: "lowest_free cfg st = k" by (simp add: lowest_free_def marking_conv[OF len])
  show "lowest_free cfg st < NR_PAGEFRAMES cfg" using eq k(1) len by simp
  show "mapcounts st ! lowest_free cfg st = 0" using eq k(2) by simp
  show "\<And>g. g < lowest_free cfg st \<Longrightarrow> mapcounts st ! g \<noteq> 0" using eq k(3) by simp
qed

lemma lowest_free_none:
  assumes "state_ok cfg st" "free_frames st = 0"
  shows "lowest_free cfg st = 0"
proof -
  have len: "length (mapcounts st) = NR_PAGEFRAMES cfg" using state_okD(1)[OF assms(1)] .
  have "\<forall>m \<in> set (mapcounts st). m \<noteq> 0"
    using assms(2) by (simp add: free_frames_def filter_empty_conv)
  then have "search_min (map (\<lambda>m. if 0 < m then 1 else (0::nat)) (mapcounts st)) 0 = 0"
    by (intro search_min_none) (simp add: word_gt_0)
  then show ?thesis by (simp add: lowest_free_def marking_conv[OF len])
qed

lemma lowest_free_bound:
  assumes "config_ok cfg" "state_ok cfg st"
  shows "lowest_free cfg st < NR_PAGEFRAMES cfg"
proof (cases "free_frames st = 0")
  case True
  then show ?thesis using lowest_free_none[OF assms(2)] assms(1) by (simp add: config_ok_def)
next
  case False
  then show ?thesis using lowest_free_props(1)[OF assms(2)] by simp
qed

lemma ptbr_copy_id:
  assumes "state_ok cfg st"
  shows "st\<lparr>procs := (procs st)[current st := (procs st ! current st)\<lparr>pagetable := pagetable (procs st ! current st)\<rparr>]\<rparr> = st"
  by simp

lemma alloc_page_map_other:
  assumes "0 < NR_PTES_PER_PAGE cfg" "i \<noteq> vpn div NR_PTES_PER_PAGE cfg"
  shows "alloc_page_map cfg vpn rw f i st = Inr st"
proof -
  have "\<not> (i * NR_PTES_PER_PAGE cfg \<le> vpn \<and> vpn < (i + 1) * NR_PTES_PER_PAGE cfg)"
    using slot_index[OF assms(1), of i vpn] assms(2) by blast
  then show ?thesis unfolding alloc_page_map_def by (simp only: if_False)
qed

lemma alloc_page_map_Some:
  assumes "0 < NR_PTES_PER_PAGE cfg" "ptbr st = Some p"
    and "outer_pte st p (vpn div NR_PTES_PER_PAGE cfg) = Some a"
  shows "alloc_page_map cfg vpn rw f (vpn div NR_PTES_PER_PAGE cfg) st =
           Inr ((set_pte a (vpn mod NR_PTES_PER_PAGE cfg)
                   (map_pte cfg rw f (get_pte st a (vpn mod NR_PTES_PER_PAGE cfg))) st)
                \<lparr>mapcounts := (mapcounts st)[f := mapcounts st ! f + 1]\<rparr>)"
proof -
  have "vpn div NR_PTES_PER_PAGE cfg * NR_PTES_PER_PAGE cfg \<le> vpn \<and>
        vpn < (vpn div NR_PTES_PER_PAGE cfg + 1) * NR_PTES_PER_PAGE cfg"
    using slot_index[OF assms(1), of "vpn div NR_PTES_PER_PAGE cfg" vpn] by blast
  then show ?thesis
    unfolding alloc_page_map_def using assms(2,3) by (simp only: if_True) (simp add: Let_def)
qed

lemma alloc_page_map_None:
  assumes "0 < NR_PTES_PER_PAGE cfg" "ptbr st = Some p"
    and "outer_pte st p (vpn div NR_PTES_PER_PAGE cfg) = None"
  shows "alloc_page_map cfg vpn rw f (vpn div NR_PTES_PER_PAGE cfg) st =
           Inr ((set_pte (length (dirs st)) (vpn mod NR_PTES_PER_PAGE cfg)
                   (map_pte cfg rw f malloc_pte) (new_directory cfg p (vpn div NR_PTES_PER_PAGE cfg) st))
                \<lparr>mapcounts := (mapcounts st)[f := mapcounts st ! f + 1]\<rparr>)"
proof -
  have "get_pte (new_directory cfg p (vpn div NR_PTES_PER_PAGE cfg) st) (length (dirs st)) (vpn mod NR_PTES_PER_PAGE cfg)
          = malloc_pte"
    using assms(1) by (simp add: get_pte_def new_directory_def set_outer_pte_def malloc_pte_directory_def)
  moreover have "vpn div NR_PTES_PER_PAGE cfg * NR_PTES_PER_PAGE cfg \<le> vpn \<and>
        vpn < (vpn div NR_PTES_PER_PAGE cfg + 1) * NR_PTES_PER_PAGE cfg"
    using slot_index[OF assms(1), of "vpn div NR_PTES_PER_PAGE cfg" vpn] by blast
  ultimately show ?thesis
    unfolding alloc_page_map_def using assms(2,3)
    by (simp only: if_True) (simp add: Let_def new_directory_def)
qed

lemma alloc_page_one_free:
  assumes "state_ok cfg st" "free_frames st = 1"
  shows "alloc_page cfg st vpn rw = Inr (- 1, st)"
  using count_allocated_free_frames[OF assms(1)] assms(2) state_okD(3)[OF assms(1)]
  by (simp add: alloc_page_def Let_def)

lemma alloc_page_in_range:
  assumes "config_ok cfg" "state_ok cfg st" "free_frames st \<noteq> 1"
    and "vpn div NR_PTES_PER_PAGE cfg < NR_PTES_PER_PAGE cfg"
  shows "alloc_page cfg st vpn rw =
           (case alloc_page_map cfg vpn rw (lowest_free cfg st) (vpn div NR_PTES_PER_PAGE cfg) st of
              Inl e \<Rightarrow> Inl e
            | Inr st' \<Rightarrow> Inr (word_of_nat (lowest_free cfg st), st'))"
proof -
  have n: "0 < NR_PTES_PER_PAGE cfg" using assms(1) by (simp add: config_ok_def)
  have "for_loop [0..<NR_PTES_PER_PAGE cfg] (alloc_page_map cfg vpn rw (lowest_free cfg st)) st =
          alloc_page_map cfg vpn rw (lowest_free cfg st) (vpn div NR_PTES_PER_PAGE cfg) st"
    using assms(4) alloc_page_map_other[OF n] by (intro for_loop_upt_single) auto
  then show ?thesis
    unfolding lowest_free_def
    using count_allocated_free_frames[OF assms(2)] assms(3) state_okD(3)[OF assms(2)]
    by (simp add: alloc_page_def Let_def)
qed

lemma alloc_page_out_of_range:
  assumes "config_ok cfg" "state_ok cfg st" "free_frames st \<noteq> 1"
    and "\<not> vpn div NR_PTES_PER_PAGE cfg < NR_PTES_PER_PAGE cfg"
  shows "alloc_page cfg st vpn rw = Inr (word_of_nat (lowest_free cfg st), st)"
proof -
  have n: "0 < NR_PTES_PER_PAGE cfg" using assms(1) by (simp add: config_ok_def)
  have "for_loop [0..<NR_PTES_PER_PAGE cfg] (alloc_page_map cfg vpn rw (lowest_free cfg st)) st = Inr st"
    using assms(4) alloc_page_map_other[OF n] by (intro for_loop_upt_none) auto
  then show ?thesis
    using count_allocated_free_frames[OF assms(2)] assms(3) state_okD(3)[OF assms(2)]
    by (simp add: alloc_page_def Let_def lowest_free_def)
qed



lemma word_gt_1_facts:
  fixes m :: "32 word"
  assumes "1 < m"
  shows "m \<noteq> 0" "m - 1 \<noteq> 0"
proof -
  show "m \<noteq> 0" using assms by auto
  show "m - 1 \<noteq> 0" using assms by auto
qed

lemma filter_zero_update:
  fixes mc :: "'a::zero list"
  assumes "f < length mc" "mc ! f \<noteq> 0" "v \<noteq> 0"
  shows "length (filter (\<lambda>m. m = 0) (mc[f := v])) = length (filter (\<lambda>m. m = 0) mc)"
proof -
  have a: "mc[f := v] = take f mc @ v # drop (Suc f) mc"
    using assms(1) by (simp add: upd_conv_take_nth_drop)
  have b: "mc = take f mc @ (mc ! f) # drop (Suc f) mc"
    using assms(1) by (simp add: id_take_nth_drop)
  have "length (filter (\<lambda>m. m = 0) (take f mc @ v # drop (Suc f) mc)) =
        length (filter (\<lambda>m. m = 0) (take f mc @ (mc ! f) # drop (Suc f) mc))"
    using assms(2,3) by simp
  then show ?thesis using a b by simp
qed

lemma free_frames_release:
  assumes "state_ok cfg st" "f < NR_PAGEFRAMES cfg" "1 < mapcounts st ! f"
  shows "free_frames (st\<lparr>mapcounts := (mapcounts st)[f := mapcounts st ! f - 1]\<rparr>) = free_frames st"
  using filter_zero_update[of f "mapcounts st" "mapcounts st ! f - 1"]
    word_gt_1_facts[OF assms(3)] assms(2) state_okD(1)[OF assms(1)]
  by (simp add: free_frames_def)

lemma pte_valid_id: "valid e \<Longrightarrow> e\<lparr>valid := True\<rparr> = e"
  by (cases e) simp

lemma map_pte_read_write:
  assumes "config_ok cfg"
  shows "map_pte cfg (RW_WRITE cfg OR RW_READ cfg) f e = e\<lparr>valid := True, writable := True, pfn := f\<rparr>"
  using assms by (simp add: map_pte_def config_ok_def)

lemma pfn_map_pte [simp]: "pfn (map_pte cfg rw f e) = f"
  by (simp add: map_pte_def Let_def)

lemma valid_map_pte [simp]: "valid (map_pte cfg rw f e)"
  by (simp add: map_pte_def Let_def)

lemma distinct_concat_nth:
  assumes "distinct (concat xss)" "p < length xss" "q < length xss" "p \<noteq> q"
  shows "set (xss ! p) \<inter> set (xss ! q) = {}"
proof -
  have aux: "set (xss ! p) \<inter> set (xss ! q) = {}" if "p < q" "q < length xss" "distinct (concat xss)" for p q
  proof -
    have "xss = take q xss @ (xss ! q) # drop (Suc q) xss"
      using that(2) by (simp add: id_take_nth_drop)
    then have "distinct (concat (take q xss) @ (xss ! q) @ concat (drop (Suc q) xss))"
      using that(3) by (metis concat.simps(2) concat_append)
    then have "set (concat (take q xss)) \<inter> set (xss ! q) = {}" by auto
    moreover have "xss ! p \<in> set (take q xss)"
      using that(1,2) by (metis in_set_conv_nth length_take min.absorb2 less_imp_le_nat nth_take)
    ultimately show ?thesis by auto
  qed
  show ?thesis
  proof (cases "p < q")
    case True
    then show ?thesis using aux assms by blast
  next
    case False
    then have "q < p" using assms(4) by simp
    then show ?thesis using aux[of q p] assms by blast
  qed
qed

lemma distinct_table_dirs_nth:
  assumes "distinct (table_dirs pt)" "i < length pt" "j < length pt" "i \<noteq> j" "pt ! i = Some a"
  shows "pt ! j \<noteq> Some a"
proof -
  let ?xss = "map (\<lambda>d. case d of None \<Rightarrow> [] | Some a \<Rightarrow> [a]) pt"
  have "set (?xss ! i) \<inter> set (?xss ! j) = {}"
    using assms(1-4) by (intro distinct_concat_nth) (simp_all add: table_dirs_def)
  then show ?thesis using assms(2,3,5) by (auto split: option.splits)
qed

lemma other_process_directory:
  assumes "state_ok cfg st" "p < length (procs st)" "q < length (procs st)" "p \<noteq> q"
    and "i < NR_PTES_PER_PAGE cfg" "j < NR_PTES_PER_PAGE cfg"
    and "outer_pte st p i = Some a" "outer_pte st q j = Some b"
  shows "a \<noteq> b"
proof -
  note D = state_okD[OF assms(1)]
  let ?xss = "map (\<lambda>p. table_dirs (pagetable p)) (procs st)"
  have "set (?xss ! p) \<inter> set (?xss ! q) = {}"
    using D(9) assms(2-4) by (intro distinct_concat_nth) (simp_all add: all_dirs_def)
  moreover have "a \<in> set (?xss ! p)"
    using assms(2,5,7) D(5)[OF assms(2)] by (auto simp: set_table_dirs outer_pte_def in_set_conv_nth)
  moreover have "b \<in> set (?xss ! q)"
    using assms(3,6,8) D(5)[OF assms(3)] by (auto simp: set_table_dirs outer_pte_def in_set_conv_nth)
  ultimately show ?thesis by auto
qed

lemma same_process_directory:
  assumes "state_ok cfg st" "p < length (procs st)"
    and "i < NR_PTES_PER_PAGE cfg" "j < NR_PTES_PER_PAGE cfg" "i \<noteq> j"
    and "outer_pte st p i = Some a"
  shows "outer_pte st p j \<noteq> Some a"
proof -
  note D = state_okD[OF assms(1)]
  have "procs st ! p \<in> set (procs st)" using assms(2) by simp
  then have "distinct (table_dirs (pagetable (procs st ! p)))"
    using D(9) unfolding all_dirs_def by (metis (no_types, lifting) distinct_concat_iff imageI list.set_map)
  then show ?thesis
    using distinct_table_dirs_nth[of "pagetable (procs st ! p)" i j a] assms(3-6) D(5)[OF assms(2)]
    by (simp add: outer_pte_def)
qed

lemma alloc_page_existing_directory:
  assumes "config_ok cfg" "state_ok cfg st"
    and "vpn div NR_PTES_PER_PAGE cfg < NR_PTES_PER_PAGE cfg"
    and "outer_pte st (current st) (vpn div NR_PTES_PER_PAGE cfg) = Some a"
  shows "alloc_page cfg st vpn rw =
           (if free_frames st = 1 then Inr (- 1, st)
            else Inr (word_of_nat (lowest_free cfg st),
                      (set_pte a (vpn mod NR_PTES_PER_PAGE cfg)
                         (map_pte cfg rw (lowest_free cfg st) (get_pte st a (vpn mod NR_PTES_PER_PAGE cfg))) st)
                      \<lparr>mapcounts := (mapcounts st)[lowest_free cfg st := mapcounts st ! lowest_free cfg st + 1]\<rparr>))"
proof -
  have n: "0 < NR_PTES_PER_PAGE cfg" using assms(1) by (simp add: config_ok_def)
  show ?thesis
    using alloc_page_one_free[OF assms(2)] alloc_page_in_range[OF assms(1,2) _ assms(3)]
      alloc_page_map_Some[OF n state_okD(3)[OF assms(2)] assms(4)]
    by simp
qed

section \<open>What the fork does\<close>

lemma cow_simps [simp]: "valid (cow e) = valid e" "pfn (cow e) = pfn e" "cow (cow e) = cow e"
  by (simp_all add: cow_def)

lemma prefix_map_step:
  assumes "k < length d"
  shows "map f (take (Suc k) d) @ drop (Suc k) d = (map f (take k d) @ drop k d)[k := f (d ! k)]"
proof -
  have "drop k d = d ! k # drop (Suc k) d" using assms by (simp add: Cons_nth_drop_Suc)
  moreover have "length (map f (take k d)) = k" using assms by simp
  ultimately show ?thesis
    using assms by (simp add: take_Suc_conv_app_nth list_update_append)
qed

lemma prefix_map_nth:
  assumes "k < length d"
  shows "(map f (take k d) @ drop k d) ! k = d ! k"
  using assms by (simp add: nth_append)

lemma count_up_snoc:
  "count_up (d @ [e]) mc =
     (if valid e then (count_up d mc)[pfn e := count_up d mc ! pfn e + 1] else count_up d mc)"
  by (simp add: count_up_def)

lemma length_count_up [simp]: "length (count_up d mc) = length mc"
  unfolding count_up_def by (induction d arbitrary: mc) auto

lemma fork_share_pte_loop:
  assumes "a < length (dirs st)" "k \<le> length (dirs st ! a)"
    and "\<And>j. j < k \<Longrightarrow> pfn (dirs st ! a ! j) < NR_PAGEFRAMES cfg"
  shows "for_loop [0..<k] (fork_share_pte cfg a) st =
           Inr (st\<lparr>dirs := (dirs st)[a := map cow (take k (dirs st ! a)) @ drop k (dirs st ! a)],
                   mapcounts := count_up (take k (dirs st ! a)) (mapcounts st)\<rparr>)"
  using assms(2,3)
proof (induction k)
  case 0
  then show ?case by (simp add: count_up_def)
next
  case (Suc k)
  let ?d = "dirs st ! a"
  let ?sk = "st\<lparr>dirs := (dirs st)[a := map cow (take k ?d) @ drop k ?d],
                 mapcounts := count_up (take k ?d) (mapcounts st)\<rparr>"
  have k: "k < length ?d" using Suc.prems(1) by simp
  have IH: "for_loop [0..<k] (fork_share_pte cfg a) st = Inr ?sk"
    using Suc.IH Suc.prems by simp
  have e: "\<And>s. dirs s = (dirs st)[a := map cow (take k ?d) @ drop k ?d] \<Longrightarrow> get_pte s a k = ?d ! k"
    using assms(1) k by (simp add: get_pte_def nth_append)
  have f: "pfn (?d ! k) < NR_PAGEFRAMES cfg" using Suc.prems(2)[of k] by simp
  have t: "take (Suc k) ?d = take k ?d @ [?d ! k]" using k by (simp add: take_Suc_conv_app_nth)
  have upd: "map cow (take (Suc k) ?d) @ drop (Suc k) ?d = (map cow (take k ?d) @ drop k ?d)[k := cow (?d ! k)]"
    using prefix_map_step[OF k] .
  have same: "\<not> (valid (?d ! k) \<and> writable (?d ! k)) \<Longrightarrow>
                (map cow (take k ?d) @ drop k ?d)[k := cow (?d ! k)] = map cow (take k ?d) @ drop k ?d"
  proof -
    assume "\<not> (valid (?d ! k) \<and> writable (?d ! k))"
    then have "cow (?d ! k) = ?d ! k" by (auto simp: cow_def)
    then show ?thesis using prefix_map_nth[OF k, of cow] by (metis list_update_id)
  qed
  have body: "fork_share_pte cfg a k ?sk =
          Inr (st\<lparr>dirs := (dirs st)[a := map cow (take (Suc k) ?d) @ drop (Suc k) ?d],
                  mapcounts := count_up (take (Suc k) ?d) (mapcounts st)\<rparr>)"
  proof (cases "valid (?d ! k)")
    case False
    then show ?thesis
      using same upd by (simp add: fork_share_pte_def Let_def e t count_up_snoc)
  next
    case True
    show ?thesis
    proof (cases "writable (?d ! k)")
      case False
      then show ?thesis
        using True same upd f by (simp add: fork_share_pte_def Let_def e t count_up_snoc)
    next
      case w: True
      have "cow (?d ! k) = (?d ! k)\<lparr>writable := False, private' := True\<rparr>"
        using True w by (simp add: cow_def)
      then show ?thesis
        using True w upd f assms(1) by (simp add: fork_share_pte_def Let_def e t count_up_snoc set_pte_def)
    qed
  qed
  show ?case
    by (simp only: for_loop_upt_Suc IH sum.case body)
qed

lemma share_step_fold_props:
  "length (fst (fold share_step as (ds, mc))) = length ds"
  "length (snd (fold share_step as (ds, mc))) = length mc"
  "b < length ds \<Longrightarrow>
     fst (fold share_step as (ds, mc)) ! b = (if b \<in> set as then map cow (ds ! b) else ds ! b)"
proof -
  have "length (fst (fold share_step as (ds, mc))) = length ds \<and>
        length (snd (fold share_step as (ds, mc))) = length mc \<and>
        (\<forall>b < length ds. fst (fold share_step as (ds, mc)) ! b = (if b \<in> set as then map cow (ds ! b) else ds ! b))"
  proof (induction as arbitrary: ds mc)
    case Nil
    then show ?case by simp
  next
    case (Cons a as)
    let ?ds = "ds[a := map cow (ds ! a)]"
    let ?mc = "count_up (ds ! a) mc"
    have step: "fold share_step (a # as) (ds, mc) = fold share_step as (?ds, ?mc)"
      by (simp add: share_step_def)
    have IH: "length (fst (fold share_step as (?ds, ?mc))) = length ?ds"
      "length (snd (fold share_step as (?ds, ?mc))) = length ?mc"
      "\<forall>b < length ?ds. fst (fold share_step as (?ds, ?mc)) ! b = (if b \<in> set as then map cow (?ds ! b) else ?ds ! b)"
      using Cons.IH[of ?ds ?mc] by simp_all
    have "\<forall>b < length ds. fst (fold share_step as (?ds, ?mc)) ! b =
            (if b \<in> set (a # as) then map cow (ds ! b) else ds ! b)"
    proof (intro allI impI)
      fix b assume b: "b < length ds"
      show "fst (fold share_step as (?ds, ?mc)) ! b = (if b \<in> set (a # as) then map cow (ds ! b) else ds ! b)"
        using IH(3) b by (cases "b = a") (simp_all add: comp_def)
    qed
    then show ?case using IH(1,2) step by simp
  qed
  then show "length (fst (fold share_step as (ds, mc))) = length ds"
    "length (snd (fold share_step as (ds, mc))) = length mc"
    "b < length ds \<Longrightarrow>
       fst (fold share_step as (ds, mc)) ! b = (if b \<in> set as then map cow (ds ! b) else ds ! b)"
    by simp_all
qed

lemma share_step_fold_snoc:
  "fold share_step (as @ [a]) s = share_step a (fold share_step as s)"
  by simp

lemma table_dirs_take_Suc:
  assumes "k < length pt"
  shows "table_dirs (take (Suc k) pt) =
           table_dirs (take k pt) @ (case pt ! k of None \<Rightarrow> [] | Some a \<Rightarrow> [a])"
  using assms by (simp add: take_Suc_conv_app_nth table_dirs_append table_dirs_def)

lemma fork_share_loop:
  assumes p: "ptbr st = Some p"
    and k: "k \<le> length (pagetable (procs st ! p))"
    and ptr: "\<And>a. a \<in> set (table_dirs (pagetable (procs st ! p))) \<Longrightarrow> a < length (dirs st)"
    and len: "\<And>a. a < length (dirs st) \<Longrightarrow> length (dirs st ! a) = NR_PTES_PER_PAGE cfg"
    and pf: "\<And>a j. a < length (dirs st) \<Longrightarrow> j < NR_PTES_PER_PAGE cfg \<Longrightarrow>
               pfn (dirs st ! a ! j) < NR_PAGEFRAMES cfg"
  shows "for_loop [0..<k] (fork_share cfg) st =
           Inr (st\<lparr>dirs := fst (fold share_step (table_dirs (take k (pagetable (procs st ! p)))) (dirs st, mapcounts st)),
                   mapcounts := snd (fold share_step (table_dirs (take k (pagetable (procs st ! p)))) (dirs st, mapcounts st))\<rparr>)"
  using k
proof (induction k)
  case 0
  then show ?case by (simp add: table_dirs_def)
next
  case (Suc k)
  let ?pt = "pagetable (procs st ! p)"
  let ?R = "fold share_step (table_dirs (take k ?pt)) (dirs st, mapcounts st)"
  let ?sk = "st\<lparr>dirs := fst ?R, mapcounts := snd ?R\<rparr>"
  have kl: "k < length ?pt" using Suc.prems by simp
  have IH: "for_loop [0..<k] (fork_share cfg) st = Inr ?sk" using Suc.IH Suc.prems by simp
  have body: "fork_share cfg k ?sk =
          Inr (st\<lparr>dirs := fst (fold share_step (table_dirs (take (Suc k) ?pt)) (dirs st, mapcounts st)),
                  mapcounts := snd (fold share_step (table_dirs (take (Suc k) ?pt)) (dirs st, mapcounts st))\<rparr>)"
  proof (cases "?pt ! k")
    case None
    then show ?thesis
      using p by (simp add: fork_share_def outer_pte_def table_dirs_take_Suc[OF kl])
  next
    case (Some a)
    have "a \<in> set (table_dirs ?pt)" using Some kl by (auto simp: set_table_dirs in_set_conv_nth)
    then have a: "a < length (dirs st)" using ptr by blast
    have a': "a < length (dirs ?sk)" using a by (simp add: share_step_fold_props(1))
    have da: "dirs ?sk ! a = (if a \<in> set (table_dirs (take k ?pt)) then map cow (dirs st ! a) else dirs st ! a)"
      using share_step_fold_props(3)[OF a] by simp
    have la: "length (dirs ?sk ! a) = NR_PTES_PER_PAGE cfg" using da len[OF a] by simp
    have pa: "\<And>j. j < NR_PTES_PER_PAGE cfg \<Longrightarrow> pfn (dirs ?sk ! a ! j) < NR_PAGEFRAMES cfg"
      using da pf[OF a] len[OF a] by simp
    have inner: "for_loop [0..<NR_PTES_PER_PAGE cfg] (fork_share_pte cfg a) ?sk =
        Inr (?sk\<lparr>dirs := (dirs ?sk)[a := map cow (take (NR_PTES_PER_PAGE cfg) (dirs ?sk ! a)) @
                                           drop (NR_PTES_PER_PAGE cfg) (dirs ?sk ! a)],
                 mapcounts := count_up (take (NR_PTES_PER_PAGE cfg) (dirs ?sk ! a)) (mapcounts ?sk)\<rparr>)"
      using la pa by (intro fork_share_pte_loop[OF a']) simp_all
    have "share_step a ?R = ((fst ?R)[a := map cow (fst ?R ! a)], count_up (fst ?R ! a) (snd ?R))"
      by (simp add: share_step_def split: prod.splits)
    then have fin: "fold share_step (table_dirs (take (Suc k) ?pt)) (dirs st, mapcounts st) =
            ((fst ?R)[a := map cow (fst ?R ! a)], count_up (fst ?R ! a) (snd ?R))"
      using Some by (simp add: table_dirs_take_Suc[OF kl])
    show ?thesis
      using p Some inner la by (simp add: fork_share_def outer_pte_def fin)
  qed
  show ?case by (simp only: for_loop_upt_Suc IH sum.case body)
qed

lemma table_dirs_Nil [simp]: "table_dirs [] = []"
  by (simp add: table_dirs_def)

lemma length_copy_slots [simp]: "length (copy_slots L pt) = length pt"
  by (induction L pt rule: copy_slots.induct) auto

lemma copy_slots_append:
  "copy_slots L (xs @ ys) = copy_slots L xs @ copy_slots (L + length (table_dirs xs)) ys"
  by (induction L xs rule: copy_slots.induct) (auto simp: table_dirs_Cons)

lemma table_dirs_copy_slots:
  "table_dirs (copy_slots L pt) = [L..<L + length (table_dirs pt)]"
proof (induction L pt rule: copy_slots.induct)
  case (1 L)
  then show ?case by simp
next
  case (2 L pt)
  then show ?case by (simp add: table_dirs_Cons)
next
  case (3 L a pt)
  have "L < L + Suc (length (table_dirs pt))" by simp
  then have "[L..<L + Suc (length (table_dirs pt))] = L # [Suc L..<L + Suc (length (table_dirs pt))]"
    by (rule upt_conv_Cons)
  then show ?case using 3 by (simp add: table_dirs_Cons del: upt_Suc)
qed

lemma copy_slots_nth:
  "i < length pt \<Longrightarrow>
     copy_slots L pt ! i =
       (case pt ! i of None \<Rightarrow> None | Some a \<Rightarrow> Some (L + length (table_dirs (take i pt))))"
proof (induction L pt arbitrary: i rule: copy_slots.induct)
  case (1 L)
  then show ?case by simp
next
  case (2 L pt)
  then show ?case by (cases i) (auto simp: table_dirs_Cons split: option.splits)
next
  case (3 L a pt)
  then show ?case by (cases i) (auto simp: table_dirs_Cons split: option.splits)
qed

lemma fork_copy_loop:
  assumes p: "ptbr st = Some p"
    and n: "length (pagetable (procs st ! p)) = n"
    and k: "k \<le> n"
    and ptr: "\<And>a. a \<in> set (table_dirs (pagetable (procs st ! p))) \<Longrightarrow> a < length (dirs st)"
  shows "for_loop [0..<k] fork_copy (st, replicate n None) =
           Inr (st\<lparr>dirs := dirs st @ map (\<lambda>a. dirs st ! a) (table_dirs (take k (pagetable (procs st ! p))))\<rparr>,
                copy_slots (length (dirs st)) (take k (pagetable (procs st ! p))) @ replicate (n - k) None)"
  using k
proof (induction k)
  case 0
  then show ?case by (simp add: table_dirs_def)
next
  case (Suc k)
  let ?pt = "pagetable (procs st ! p)"
  let ?L = "length (dirs st)"
  let ?sk = "st\<lparr>dirs := dirs st @ map (\<lambda>a. dirs st ! a) (table_dirs (take k ?pt))\<rparr>"
  let ?ptk = "copy_slots ?L (take k ?pt) @ replicate (n - k) None"
  have kl: "k < length ?pt" using Suc.prems n by simp
  have IH: "for_loop [0..<k] fork_copy (st, replicate n None) = Inr (?sk, ?ptk)"
    using Suc.IH Suc.prems by simp
  have rep: "replicate (n - k) None = None # replicate (n - Suc k) (None :: nat option)"
    using Suc.prems by (metis Suc_diff_Suc Suc_le_lessD replicate_Suc)
  have tk: "take (Suc k) ?pt = take k ?pt @ [?pt ! k]" using kl by (simp add: take_Suc_conv_app_nth)
  have lk: "length (copy_slots ?L (take k ?pt)) = k" using kl by simp
  have body: "fork_copy k (?sk, ?ptk) =
          Inr (st\<lparr>dirs := dirs st @ map (\<lambda>a. dirs st ! a) (table_dirs (take (Suc k) ?pt))\<rparr>,
               copy_slots ?L (take (Suc k) ?pt) @ replicate (n - Suc k) None)"
  proof (cases "?pt ! k")
    case None
    then show ?thesis
      using p rep by (simp add: fork_copy_def outer_pte_def tk copy_slots_append table_dirs_append table_dirs_def)
  next
    case (Some a)
    have "a \<in> set (table_dirs ?pt)" using Some kl by (auto simp: set_table_dirs in_set_conv_nth)
    then have a: "a < length (dirs st)" using ptr by blast
    have upd: "?ptk[k := Some (length (dirs ?sk))] =
                 copy_slots ?L (take (Suc k) ?pt) @ replicate (n - Suc k) None"
      using lk Some
      by (simp add: rep tk copy_slots_append list_update_append table_dirs_def)
    have d: "dirs ?sk @ [dirs ?sk ! a] = dirs st @ map (\<lambda>a. dirs st ! a) (table_dirs (take (Suc k) ?pt))"
      using a Some by (simp add: tk table_dirs_append nth_append table_dirs_def)
    show ?thesis
      using p Some upd d by (simp add: fork_copy_def outer_pte_def)
  qed
  show ?case by (simp only: for_loop_upt_Suc IH sum.case body)
qed

lemma shared_props:
  assumes "state_ok cfg st"
  shows "length (fst (shared st)) = length (dirs st)"
    and "length (snd (shared st)) = NR_PAGEFRAMES cfg"
    and "\<And>b. b < length (dirs st) \<Longrightarrow>
           fst (shared st) ! b =
             (if b \<in> set (table_dirs (pagetable (procs st ! current st))) then map cow (dirs st ! b)
              else dirs st ! b)"
  by (simp_all add: shared_def share_step_fold_props state_okD(1)[OF assms])

lemma current_table_dirs:
  assumes "state_ok cfg st" "a \<in> set (table_dirs (pagetable (procs st ! current st)))"
  shows "a \<in> set (all_dirs st)" "a < length (dirs st)"
proof -
  show "a \<in> set (all_dirs st)"
    using assms(2) state_okD(2)[OF assms(1)] unfolding set_all_dirs set_table_dirs by blast
  then show "a < length (dirs st)" using state_okD(8)[OF assms(1)] by blast
qed

lemma state_all_fields:
  "st\<lparr>dirs := D, mapcounts := M, procs := P, processes := Q, current := c, ptbr := b\<rparr> =
     \<lparr>procs = P, dirs = D, processes = Q, current = c, ptbr = b, mapcounts = M\<rparr>"
  by (cases st) simp

lemma fork_result:
  assumes "config_ok cfg" "state_ok cfg st"
  shows "fork cfg st npid =
           Inr \<lparr>procs = procs st @
                          [\<lparr>pid = npid,
                            pagetable = copy_slots (length (dirs st)) (pagetable (procs st ! current st))\<rparr>],
                dirs = fst (shared st) @
                         map (\<lambda>a. fst (shared st) ! a) (table_dirs (pagetable (procs st ! current st))),
                processes = current st # processes st,
                current = length (procs st),
                ptbr = Some (length (procs st)),
                mapcounts = snd (shared st)\<rparr>"
proof -
  note D = state_okD[OF assms(2)]
  let ?n = "NR_PTES_PER_PAGE cfg"
  let ?p = "current st"
  let ?pt = "pagetable (procs st ! ?p)"
  let ?st1 = "st\<lparr>dirs := fst (shared st), mapcounts := snd (shared st)\<rparr>"
  have lpt: "length ?pt = ?n" using D(5)[OF D(2)] .
  have ptr: "\<And>a. a \<in> set (table_dirs ?pt) \<Longrightarrow> a < length (dirs st)"
    using current_table_dirs(2)[OF assms(2)] .
  have "for_loop [0..<?n] (fork_share cfg) st =
          Inr (st\<lparr>dirs := fst (fold share_step (table_dirs (take ?n ?pt)) (dirs st, mapcounts st)),
                  mapcounts := snd (fold share_step (table_dirs (take ?n ?pt)) (dirs st, mapcounts st))\<rparr>)"
    using lpt ptr D(6,7) by (intro fork_share_loop[OF D(3)]) simp_all
  then have l1: "for_loop [0..<?n] (fork_share cfg) st = Inr ?st1"
    using lpt by (simp add: shared_def)
  have "for_loop [0..<?n] fork_copy (?st1, replicate ?n None) =
          Inr (?st1\<lparr>dirs := dirs ?st1 @ map (\<lambda>a. dirs ?st1 ! a) (table_dirs (take ?n (pagetable (procs ?st1 ! ?p))))\<rparr>,
               copy_slots (length (dirs ?st1)) (take ?n (pagetable (procs ?st1 ! ?p))) @ replicate (?n - ?n) None)"
    using lpt ptr D(3) shared_props(1)[OF assms(2)] by (intro fork_copy_loop) simp_all
  then have l2: "for_loop [0..<?n] fork_copy (?st1, malloc_pagetable cfg) =
          Inr (?st1\<lparr>dirs := fst (shared st) @ map (\<lambda>a. fst (shared st) ! a) (table_dirs ?pt)\<rparr>,
               copy_slots (length (dirs st)) ?pt)"
    using lpt shared_props(1)[OF assms(2)] by (simp add: malloc_pagetable_def)
  show ?thesis
    using state_all_fields[where st = st] by (simp add: fork_def l1 l2 list_add_def Let_def)
qed

lemma list_for_each_entry_found:
  "list_for_each_entry ps npid q = Some p \<Longrightarrow> p \<in> set q \<and> pid (ps ! p) = npid"
  by (induction q) (auto split: if_splits)

lemma state_ok_switch_found:
  assumes "state_ok cfg st" "p \<in> set (processes st)"
  shows "state_ok cfg (st\<lparr>processes := list_add (current st) (processes st), current := p, ptbr := Some p\<rparr>)"
  using assms unfolding state_ok_def list_add_def all_dirs_def by (simp add: list_all_iff)

lemma state_ok_fork:
  fixes npid :: nat
  assumes "config_ok cfg" "state_ok cfg st"
  defines "st' \<equiv> \<lparr>procs = procs st @
                          [\<lparr>pid = npid,
                            pagetable = copy_slots (length (dirs st)) (pagetable (procs st ! current st))\<rparr>],
                dirs = fst (shared st) @
                         map (\<lambda>a. fst (shared st) ! a) (table_dirs (pagetable (procs st ! current st))),
                processes = current st # processes st,
                current = length (procs st),
                ptbr = Some (length (procs st)),
                mapcounts = snd (shared st)\<rparr>"
  shows "state_ok cfg st'"
    and "all_dirs st' = all_dirs st @
           [length (dirs st)..<length (dirs st) + length (table_dirs (pagetable (procs st ! current st)))]"
proof -
  note D = state_okD[OF assms(2)]
  note S = shared_props[OF assms(2)]
  let ?pt = "pagetable (procs st ! current st)"
  let ?L = "length (dirs st)"
  let ?m = "length (table_dirs ?pt)"
  show ad: "all_dirs st' = all_dirs st @ [?L..<?L + ?m]"
    by (simp add: all_dirs_def st'_def table_dirs_copy_slots)
  have lpt: "length ?pt = NR_PTES_PER_PAGE cfg" using D(5)[OF D(2)] .
  have shared_dir: "length (fst (shared st) ! b) = NR_PTES_PER_PAGE cfg \<and>
                    (\<forall>j < NR_PTES_PER_PAGE cfg. pfn (fst (shared st) ! b ! j) < NR_PAGEFRAMES cfg)"
    if "b < ?L" for b
    using that S(3)[OF that] D(6)[OF that] D(7)[OF that] by simp
  have ld: "length (dirs st') = ?L + ?m" by (simp add: st'_def S(1))
  have dir: "length (dirs st' ! b) = NR_PTES_PER_PAGE cfg \<and>
             (\<forall>j < NR_PTES_PER_PAGE cfg. pfn (dirs st' ! b ! j) < NR_PAGEFRAMES cfg)"
    if "b < length (dirs st')" for b
  proof (cases "b < ?L")
    case True
    then show ?thesis using shared_dir[OF True] by (simp add: st'_def nth_append S(1))
  next
    case False
    then have i: "b - ?L < ?m" using that ld by simp
    have "table_dirs ?pt ! (b - ?L) \<in> set (table_dirs ?pt)" using i by simp
    then have "table_dirs ?pt ! (b - ?L) < ?L" using current_table_dirs(2)[OF assms(2)] by blast
    then show ?thesis using shared_dir False i by (simp add: st'_def nth_append S(1))
  qed
  have old: "\<forall>a \<in> set (all_dirs st). a < ?L" using D(8) by blast
  show "state_ok cfg st'"
  proof (rule state_okI)
    show "length (mapcounts st') = NR_PAGEFRAMES cfg" by (simp add: st'_def S(2))
    show "current st' < length (procs st')" by (simp add: st'_def)
    show "ptbr st' = Some (current st')" by (simp add: st'_def)
    show "\<And>q. q \<in> set (processes st') \<Longrightarrow> q < length (procs st')"
      using D(2,4) by (auto simp: st'_def less_Suc_eq)
    show "\<And>q. q < length (procs st') \<Longrightarrow> length (pagetable (procs st' ! q)) = NR_PTES_PER_PAGE cfg"
      using D(5) lpt by (auto simp: st'_def nth_append less_Suc_eq)
    show "\<And>b. b < length (dirs st') \<Longrightarrow> length (dirs st' ! b) = NR_PTES_PER_PAGE cfg"
      using dir by blast
    show "\<And>b j. b < length (dirs st') \<Longrightarrow> j < NR_PTES_PER_PAGE cfg \<Longrightarrow>
            pfn (dirs st' ! b ! j) < NR_PAGEFRAMES cfg"
      using dir by blast
    show "\<And>b. b \<in> set (all_dirs st') \<Longrightarrow> b < length (dirs st')"
      using old ld by (fastforce simp: ad)
    show "distinct (all_dirs st')"
      using old D(9) by (fastforce simp: ad)
  qed
qed

lemma table_dirs_slot:
  assumes "i < length pt" "pt ! i = Some a"
  shows "length (table_dirs (take i pt)) < length (table_dirs pt)"
    and "table_dirs pt ! length (table_dirs (take i pt)) = a"
proof -
  have "pt = take i pt @ Some a # drop (Suc i) pt"
    using assms by (metis id_take_nth_drop)
  then have eq: "table_dirs pt = table_dirs (take i pt) @ a # table_dirs (drop (Suc i) pt)"
    by (metis append_Cons append_Nil option.simps(5) table_dirs_Cons table_dirs_append)
  show "length (table_dirs (take i pt)) < length (table_dirs pt)"
    using arg_cong[OF eq, of length] by simp
  show "table_dirs pt ! length (table_dirs (take i pt)) = a"
    using arg_cong[OF eq, of "\<lambda>xs. xs ! length (table_dirs (take i pt))"] by simp
qed

section \<open>A write fault by the only owner\<close>

text \<open>
  A write fault on a valid, private, read-only entry of the running process whose frame
  has count 1 returns \<^verbatim>\<open>true\<close> and changes nothing but the entry: same frame, writable,
  no longer private.
\<close>

lemma handle_page_fault_in_place:
  assumes "config_ok cfg" and "state_ok cfg st"
    and "vpn div NR_PTES_PER_PAGE cfg < NR_PTES_PER_PAGE cfg"
    and "outer_pte st (current st) (vpn div NR_PTES_PER_PAGE cfg) = Some a"
    and "get_pte st a (vpn mod NR_PTES_PER_PAGE cfg) = e"
    and "valid e" and "\<not> writable e" and "private' e"
    and "mapcounts st ! pfn e = 1"
  shows "handle_page_fault cfg st vpn (RW_WRITE cfg) =
           Inr (True, set_pte a (vpn mod NR_PTES_PER_PAGE cfg)
                        (e\<lparr>writable := True, private' := False\<rparr>) st)"
proof -
  note D = state_okD[OF assms(2)]
  let ?n = "NR_PTES_PER_PAGE cfg"
  have n: "0 < ?n" using assms(1) by (simp add: config_ok_def)
  have a: "a < length (dirs st)" "length (dirs st ! a) = ?n"
    using state_ok_outer_pte[OF assms(2) D(2) assms(3,4)] by simp_all
  have pos: "vpn mod ?n < ?n" using n by simp
  have f: "pfn e < NR_PAGEFRAMES cfg" using D(7)[OF a(1) pos] assms(5) by (simp add: get_pte_def)
  show ?thesis
    using assms(3-9) D(3) f by (simp add: handle_page_fault_def Let_def)
qed

section \<open>The concrete states are what the code produces\<close>

lemma config_ok_small: "config_ok small"
  by (simp add: config_ok_def small_def)

lemma run_forked: "run small (init_state small) [Alloc 0 3, Switch 1] = Inr forked"
  by code_simp

lemma run_sole_owner:
  "run small (init_state small) [Alloc 0 3, Switch 1, Fault 0 2, Switch 0] = Inr sole_owner"
  by code_simp

lemma run_one_frame_left:
  "run small (init_state small) [Alloc 0 3, Alloc 1 3, Switch 1] = Inr one_frame_left"
  by code_simp

lemma state_ok_forked: "state_ok small forked"
  by code_simp

lemma state_ok_sole_owner: "state_ok small sole_owner"
  by code_simp

lemma run_one_page: "run small (init_state small) [Alloc 0 3] = Inr one_page"
  by code_simp

lemma state_ok_one_page: "state_ok small one_page"
  by code_simp

section \<open>The lowest free frame\<close>

text \<open>
  C6. With frames 0 to k-1 referenced and frame k free, \<^verbatim>\<open>alloc_page\<close> should return k.
  On the small machine, after pages 0 and 1 were mapped to frames 0 and 1, frame 2 is
  free (k = 2), but the counter that starts at 1 has reached \<^verbatim>\<open>NR_PAGEFRAMES\<close> = 3: the
  call returns \<^verbatim>\<open>-1\<close> and maps nothing.
\<close>

theorem alloc_page_last_frame:
  "run small (init_state small) [Alloc 0 3, Alloc 1 3] =
     Inr \<lparr>procs = [\<lparr>pid = 0, pagetable = [Some 0, None]\<rparr>],
          dirs = [[\<lparr>valid = True, writable = True, pfn = 0, private' = False\<rparr>,
                   \<lparr>valid = True, writable = True, pfn = 1, private' = False\<rparr>]],
          processes = [], current = 0, ptbr = Some 0, mapcounts = [1, 1, 0]\<rparr> \<and>
   alloc_page small
     \<lparr>procs = [\<lparr>pid = 0, pagetable = [Some 0, None]\<rparr>],
      dirs = [[\<lparr>valid = True, writable = True, pfn = 0, private' = False\<rparr>,
               \<lparr>valid = True, writable = True, pfn = 1, private' = False\<rparr>]],
      processes = [], current = 0, ptbr = Some 0, mapcounts = [1, 1, 0]\<rparr> 2 3 =
     Inr (- 1,
          \<lparr>procs = [\<lparr>pid = 0, pagetable = [Some 0, None]\<rparr>],
           dirs = [[\<lparr>valid = True, writable = True, pfn = 0, private' = False\<rparr>,
                    \<lparr>valid = True, writable = True, pfn = 1, private' = False\<rparr>]],
           processes = [], current = 0, ptbr = Some 0, mapcounts = [1, 1, 0]\<rparr>)"
  by code_simp

section \<open>Switching to a queued process\<close>

text \<open>
  C3. When \<^verbatim>\<open>switch_process\<close> finds the process in the ready queue, it should unlink it.
  The code links the running process and makes the found process current with \<open>ptbr\<close>
  at its table, but has no statement that unlinks: on the small machine, after process 1
  was forked (queue: process 0), switching back to 0 leaves the queue holding process
  1 and process 0, the process that now runs.
\<close>

theorem switch_process_keeps_link:
  "run small (init_state small) [Switch 1] =
     Inr \<lparr>procs = [\<lparr>pid = 0, pagetable = [None, None]\<rparr>, \<lparr>pid = 1, pagetable = [None, None]\<rparr>],
          dirs = [], processes = [0], current = 1, ptbr = Some 1, mapcounts = [0, 0, 0]\<rparr> \<and>
   switch_process small
     \<lparr>procs = [\<lparr>pid = 0, pagetable = [None, None]\<rparr>, \<lparr>pid = 1, pagetable = [None, None]\<rparr>],
      dirs = [], processes = [0], current = 1, ptbr = Some 1, mapcounts = [0, 0, 0]\<rparr> 0 =
     Inr \<lparr>procs = [\<lparr>pid = 0, pagetable = [None, None]\<rparr>, \<lparr>pid = 1, pagetable = [None, None]\<rparr>],
          dirs = [], processes = [1, 0], current = 0, ptbr = Some 0, mapcounts = [0, 0, 0]\<rparr>"
  by code_simp

section \<open>Freeing a page that was never mapped\<close>

text \<open>
  C7. \<^verbatim>\<open>free_page\<close> on a page whose directory is absent should do nothing. The code
  reads \<^verbatim>\<open>ptbr->outer_ptes[i]->ptes[pos].pfn\<close> with no test of the directory pointer:
  in the initial state, freeing page 0 dereferences a null pointer.
\<close>

theorem free_page_null_directory:
  "free_page small (init_state small) 0 = Inl NullDereference"
  by code_simp

section \<open>The private flag after a duplication\<close>

text \<open>
  C8. A valid entry that is private should never be writable. \<^verbatim>\<open>alloc_page\<close> does not
  write \<^verbatim>\<open>private\<close>, so the entry it installs for a copy-on-write duplication keeps the
  flag the fork had set: on the small machine, after process 0 maps page 0, process 1 is
  forked and writes to page 0, the entry of process 1 is valid, writable and private.
  (The other branch of the handler, which promotes in place, clears the flag.)
\<close>

theorem cow_duplicate_keeps_private:
  "run small (init_state small) [Alloc 0 3, Switch 1, Fault 0 2] =
     Inr \<lparr>procs = [\<lparr>pid = 0, pagetable = [Some 0, None]\<rparr>, \<lparr>pid = 1, pagetable = [Some 1, None]\<rparr>],
          dirs = [[\<lparr>valid = True, writable = False, pfn = 0, private' = True\<rparr>,
                   \<lparr>valid = False, writable = False, pfn = 0, private' = False\<rparr>],
                  [\<lparr>valid = True, writable = True, pfn = 1, private' = True\<rparr>,
                   \<lparr>valid = False, writable = False, pfn = 0, private' = False\<rparr>]],
          processes = [0], current = 1, ptbr = Some 1, mapcounts = [1, 1, 0]\<rparr>"
  by code_simp

section \<open>A read-write access is not a write fault\<close>

text \<open>
  C10. \<^verbatim>\<open>handle_page_fault\<close> takes the copy-on-write path only when \<^verbatim>\<open>rw\<close> is exactly
  \<^verbatim>\<open>RW_WRITE\<close>: called with \<^verbatim>\<open>RW_READ | RW_WRITE\<close> on a valid entry that is not writable
  and private, it returns \<^verbatim>\<open>false\<close> and leaves the whole state as it was.
\<close>

theorem handle_page_fault_read_write:
  assumes "config_ok cfg"
    and "ptbr st = Some p"
    and "vpn div NR_PTES_PER_PAGE cfg < NR_PTES_PER_PAGE cfg"
    and "outer_pte st p (vpn div NR_PTES_PER_PAGE cfg) = Some a"
    and "valid (get_pte st a (vpn mod NR_PTES_PER_PAGE cfg))"
    and "\<not> writable (get_pte st a (vpn mod NR_PTES_PER_PAGE cfg))"
    and "private' (get_pte st a (vpn mod NR_PTES_PER_PAGE cfg))"
  shows "handle_page_fault cfg st vpn (RW_READ cfg OR RW_WRITE cfg) = Inr (False, st)"
proof -
  have "RW_READ cfg OR RW_WRITE cfg \<noteq> RW_WRITE cfg"
    using assms(1) by (simp add: config_ok_def or.commute)
  with assms(2-5) show ?thesis
    by (simp add: handle_page_fault_def Let_def)
qed

theorem handle_page_fault_read_write_witness:
  "config_ok small \<and> ptbr forked = Some 1 \<and> outer_pte forked 1 0 = Some 1 \<and>
   get_pte forked 1 0 = \<lparr>valid = True, writable = False, pfn = 0, private' = True\<rparr> \<and>
   handle_page_fault small forked 0 3 = Inr (False, forked)"
proof -
  have p: "ptbr forked = Some 1" by code_simp
  have i: "0 div NR_PTES_PER_PAGE small < NR_PTES_PER_PAGE small" by code_simp
  have o: "outer_pte forked 1 (0 div NR_PTES_PER_PAGE small) = Some 1" by code_simp
  have e: "get_pte forked 1 (0 mod NR_PTES_PER_PAGE small) =
             \<lparr>valid = True, writable = False, pfn = 0, private' = True\<rparr>"
    by code_simp
  have rw: "RW_READ small OR RW_WRITE small = 3" by code_simp
  from handle_page_fault_read_write [OF config_ok_small p i o] e rw
  have "handle_page_fault small forked 0 3 = Inr (False, forked)" by simp
  with config_ok_small p o e show ?thesis by simp
qed

section \<open>A write fault on a shared page\<close>

text \<open>
  C4. A write fault on a private, read-only entry whose frame has a count above 1 should
  lower that count by one and install a new frame, writable, with count 1. On the small
  machine, after process 0 has mapped pages 0 and 1 and process 1 was forked, frames 0
  and 1 have count 2 and frame 2 is free. The write fault of process 1 on page 0 lowers
  the count of frame 0 to 1; \<^verbatim>\<open>alloc_page\<close>, whose counter starts at 1, finds it equal to
  \<^verbatim>\<open>NR_PAGEFRAMES\<close> and returns \<^verbatim>\<open>-1\<close> with frame 2 free; the handler drops that result and
  returns \<^verbatim>\<open>true\<close>. The entry is still on frame 0, read-only and private, and frame 2
  still has count 0.
\<close>

theorem write_fault_one_frame_left:
  "run small (init_state small) [Alloc 0 3, Alloc 1 3, Switch 1] = Inr one_frame_left \<and>
   outer_pte one_frame_left (current one_frame_left) 0 = Some 1 \<and>
   get_pte one_frame_left 1 0 = \<lparr>valid = True, writable = False, pfn = 0, private' = True\<rparr> \<and>
   mapcounts one_frame_left ! 0 = 2 \<and> mapcounts one_frame_left ! 2 = 0 \<and>
   handle_page_fault small one_frame_left 0 (RW_WRITE small) =
     Inr (True, one_frame_left\<lparr>mapcounts := [1, 2, 0]\<rparr>)"
  by code_simp

section \<open>The other owner after a duplication\<close>

text \<open>
  C9. When the running process takes a write fault on a private page whose frame is
  shared (count above 1; the count 2 that drops to 1 is the case of the claim), the
  handler returns \<^verbatim>\<open>true\<close>, and for every other process \<open>q\<close> each directory pointer of
  its table and the whole directory behind it are what they were: the entry of the other
  owner keeps its frame, stays private and stays read-only.
\<close>

theorem cow_duplicate_other_owner:
  assumes "config_ok cfg" and "state_ok cfg st"
    and "vpn div NR_PTES_PER_PAGE cfg < NR_PTES_PER_PAGE cfg"
    and "outer_pte st (current st) (vpn div NR_PTES_PER_PAGE cfg) = Some a"
    and "valid (get_pte st a (vpn mod NR_PTES_PER_PAGE cfg))"
    and "\<not> writable (get_pte st a (vpn mod NR_PTES_PER_PAGE cfg))"
    and "private' (get_pte st a (vpn mod NR_PTES_PER_PAGE cfg))"
    and "1 < mapcounts st ! pfn (get_pte st a (vpn mod NR_PTES_PER_PAGE cfg))"
    and "q < length (procs st)" and "q \<noteq> current st"
    and "j < NR_PTES_PER_PAGE cfg" and "outer_pte st q j = Some b"
  shows "\<exists>st'. handle_page_fault cfg st vpn (RW_WRITE cfg) = Inr (True, st') \<and>
           outer_pte st' q j = Some b \<and> dirs st' ! b = dirs st ! b"
proof -
  note D = state_okD[OF assms(2)]
  let ?n = "NR_PTES_PER_PAGE cfg"
  let ?pos = "vpn mod ?n"
  let ?e = "get_pte st a ?pos"
  have n: "0 < ?n" using assms(1) by (simp add: config_ok_def)
  have a: "a < length (dirs st)" "length (dirs st ! a) = ?n"
    using state_ok_outer_pte[OF assms(2) D(2) assms(3,4)] by simp_all
  have pos: "?pos < ?n" using n by simp
  have f: "pfn ?e < NR_PAGEFRAMES cfg" using D(7)[OF a(1) pos] by (simp add: get_pte_def)
  have ne: "b \<noteq> a"
    using other_process_directory[OF assms(2) assms(9) D(2) assms(10) assms(11) assms(3) assms(12) assms(4)] .
  let ?st1 = "st\<lparr>mapcounts := (mapcounts st)[pfn ?e := mapcounts st ! pfn ?e - 1]\<rparr>"
  have ok1: "state_ok cfg ?st1" using D(1) by (intro state_ok_mapcounts[OF assms(2)]) simp
  have hpf: "handle_page_fault cfg st vpn (RW_WRITE cfg) =
               alloc_and_return_true cfg ?st1 vpn (RW_WRITE cfg OR RW_READ cfg)"
    using assms(3-8) D(3) f by (simp add: handle_page_fault_def Let_def)
  show ?thesis
  proof (cases "free_frames ?st1 = 1")
    case True
    have "alloc_page cfg ?st1 vpn (RW_WRITE cfg OR RW_READ cfg) = Inr (- 1, ?st1)"
      using alloc_page_one_free[OF ok1 True] .
    then have "handle_page_fault cfg st vpn (RW_WRITE cfg) = Inr (True, ?st1)"
      using hpf by (simp add: alloc_and_return_true_def)
    then show ?thesis using assms(12) by (simp add: outer_pte_def)
  next
    case False
    let ?f' = "lowest_free cfg ?st1"
    let ?st' = "(set_pte a ?pos (map_pte cfg (RW_WRITE cfg OR RW_READ cfg) ?f' (get_pte ?st1 a ?pos)) ?st1)
                  \<lparr>mapcounts := (mapcounts ?st1)[?f' := mapcounts ?st1 ! ?f' + 1]\<rparr>"
    have "alloc_page cfg ?st1 vpn (RW_WRITE cfg OR RW_READ cfg) = Inr (word_of_nat ?f', ?st')"
      using alloc_page_existing_directory[OF assms(1) ok1, of vpn a "RW_WRITE cfg OR RW_READ cfg"]
        assms(3,4) False
      by simp
    then have "handle_page_fault cfg st vpn (RW_WRITE cfg) = Inr (True, ?st')"
      using hpf by (simp add: alloc_and_return_true_def)
    moreover have "outer_pte ?st' q j = Some b" using assms(12) by (simp add: outer_pte_def)
    moreover have "dirs ?st' ! b = dirs st ! b" using ne by (simp add: set_pte_def)
    ultimately show ?thesis by blast
  qed
qed

theorem cow_duplicate_other_owner_witness:
  "config_ok small \<and> state_ok small forked \<and> current forked = 1 \<and>
   outer_pte forked 1 0 = Some 1 \<and>
   get_pte forked 1 0 = \<lparr>valid = True, writable = False, pfn = 0, private' = True\<rparr> \<and>
   mapcounts forked ! 0 = 2 \<and>
   outer_pte forked 0 0 = Some 0 \<and>
   get_pte forked 0 0 = \<lparr>valid = True, writable = False, pfn = 0, private' = True\<rparr> \<and>
   (\<exists>st'. handle_page_fault small forked 0 (RW_WRITE small) = Inr (True, st') \<and>
      outer_pte st' 0 0 = Some 0 \<and>
      get_pte st' 0 0 = \<lparr>valid = True, writable = False, pfn = 0, private' = True\<rparr>)"
proof -
  have i: "0 div NR_PTES_PER_PAGE small < NR_PTES_PER_PAGE small" by code_simp
  have o: "outer_pte forked (current forked) (0 div NR_PTES_PER_PAGE small) = Some 1" by code_simp
  have e: "valid (get_pte forked 1 (0 mod NR_PTES_PER_PAGE small))"
    "\<not> writable (get_pte forked 1 (0 mod NR_PTES_PER_PAGE small))"
    "private' (get_pte forked 1 (0 mod NR_PTES_PER_PAGE small))"
    "1 < mapcounts forked ! pfn (get_pte forked 1 (0 mod NR_PTES_PER_PAGE small))"
    by code_simp+
  have q: "0 < length (procs forked)" "0 \<noteq> current forked" "0 < NR_PTES_PER_PAGE small"
    "outer_pte forked 0 0 = Some 0"
    by code_simp+
  have facts: "current forked = 1" "outer_pte forked 1 0 = Some 1"
    "get_pte forked 1 0 = \<lparr>valid = True, writable = False, pfn = 0, private' = True\<rparr>"
    "mapcounts forked ! 0 = 2"
    "get_pte forked 0 0 = \<lparr>valid = True, writable = False, pfn = 0, private' = True\<rparr>"
    by code_simp+
  from cow_duplicate_other_owner [OF config_ok_small state_ok_forked i o e q]
  obtain st' where st': "handle_page_fault small forked 0 (RW_WRITE small) = Inr (True, st')"
    "outer_pte st' 0 0 = Some 0" "dirs st' ! 0 = dirs forked ! 0"
    by blast
  have "get_pte st' 0 0 = get_pte forked 0 0" using st'(3) by (simp add: get_pte_def)
  then show ?thesis
    using config_ok_small state_ok_forked facts q(4) st'(1,2) by auto
qed

section \<open>The table of a forked child\<close>

text \<open>
  C5. When \<^verbatim>\<open>switch_process\<close> finds no process with the identifier in a ready queue
  without repetition, it returns with a
  new running process of that identifier whose table has, for every entry that was valid
  in the parent's table, an entry at the same page with the same field values as the
  parent's entry after the fork, which is the parent's old entry with a writable page
  made read-only and private. The child's directories are new storage: their addresses
  lie beyond the directories that existed, and in the new state no directory is
  reachable through two slots.
\<close>

theorem fork_duplicates_table:
  assumes "config_ok cfg" and "state_ok cfg st"
    and "distinct (processes st)"
    and "list_for_each_entry (procs st) npid (processes st) = None"
  shows "\<exists>st'. switch_process cfg st npid = Inr st' \<and> state_ok cfg st' \<and>
           current st' = length (procs st) \<and> pid (procs st' ! current st') = npid \<and>
           (\<forall>b \<in> set (table_dirs (pagetable (procs st' ! current st'))). length (dirs st) \<le> b) \<and>
           (\<forall>vpn a. vpn div NR_PTES_PER_PAGE cfg < NR_PTES_PER_PAGE cfg \<longrightarrow>
              outer_pte st (current st) (vpn div NR_PTES_PER_PAGE cfg) = Some a \<longrightarrow>
              valid (get_pte st a (vpn mod NR_PTES_PER_PAGE cfg)) \<longrightarrow>
              (\<exists>b. outer_pte st' (current st) (vpn div NR_PTES_PER_PAGE cfg) = Some a \<and>
                   outer_pte st' (current st') (vpn div NR_PTES_PER_PAGE cfg) = Some b \<and> b \<noteq> a \<and>
                   get_pte st' a (vpn mod NR_PTES_PER_PAGE cfg) =
                     (if writable (get_pte st a (vpn mod NR_PTES_PER_PAGE cfg))
                      then (get_pte st a (vpn mod NR_PTES_PER_PAGE cfg))\<lparr>writable := False, private' := True\<rparr>
                      else get_pte st a (vpn mod NR_PTES_PER_PAGE cfg)) \<and>
                   get_pte st' b (vpn mod NR_PTES_PER_PAGE cfg) =
                     get_pte st' a (vpn mod NR_PTES_PER_PAGE cfg)))"
proof -
  note D = state_okD[OF assms(2)]
  note S = shared_props[OF assms(2)]
  let ?n = "NR_PTES_PER_PAGE cfg"
  let ?pt = "pagetable (procs st ! current st)"
  let ?L = "length (dirs st)"
  let ?D = "fst (shared st)"
  let ?st' = "\<lparr>procs = procs st @ [\<lparr>pid = npid, pagetable = copy_slots ?L ?pt\<rparr>],
              dirs = ?D @ map (\<lambda>a. ?D ! a) (table_dirs ?pt),
              processes = current st # processes st,
              current = length (procs st),
              ptbr = Some (length (procs st)),
              mapcounts = snd (shared st)\<rparr>"
  have n: "0 < ?n" using assms(1) by (simp add: config_ok_def)
  have lpt: "length ?pt = ?n" using D(5)[OF D(2)] .
  have res: "switch_process cfg st npid = Inr ?st'"
    using assms(4) fork_result[OF assms(1,2)] by (simp add: switch_process_def)
  have ok: "state_ok cfg ?st'" using state_ok_fork(1)[OF assms(1,2)] .
  have fresh: "\<forall>b \<in> set (table_dirs (pagetable (procs ?st' ! current ?st'))). ?L \<le> b"
    by (simp add: table_dirs_copy_slots)
  have entries: "\<exists>b. outer_pte ?st' (current st) (vpn div ?n) = Some a \<and>
                   outer_pte ?st' (current ?st') (vpn div ?n) = Some b \<and> b \<noteq> a \<and>
                   get_pte ?st' a (vpn mod ?n) =
                     (if writable (get_pte st a (vpn mod ?n))
                      then (get_pte st a (vpn mod ?n))\<lparr>writable := False, private' := True\<rparr>
                      else get_pte st a (vpn mod ?n)) \<and>
                   get_pte ?st' b (vpn mod ?n) = get_pte ?st' a (vpn mod ?n)"
    if i: "vpn div ?n < ?n" and o: "outer_pte st (current st) (vpn div ?n) = Some a"
      and v: "valid (get_pte st a (vpn mod ?n))" for vpn a
  proof -
    let ?i = "vpn div ?n"
    let ?pos = "vpn mod ?n"
    let ?j = "length (table_dirs (take ?i ?pt))"
    have pti: "?pt ! ?i = Some a" using o by (simp add: outer_pte_def)
    have a: "a < ?L" "length (dirs st ! a) = ?n"
      using state_ok_outer_pte[OF assms(2) D(2) i o] by simp_all
    have ain: "a \<in> set (table_dirs ?pt)"
      using pti i lpt by (auto simp: set_table_dirs in_set_conv_nth)
    have pos: "?pos < ?n" using n by simp
    have j: "?j < length (table_dirs ?pt)" "table_dirs ?pt ! ?j = a"
      using table_dirs_slot[of ?i ?pt a] pti i lpt by simp_all
    have o1: "outer_pte ?st' (current st) ?i = Some a"
      using o D(2) by (simp add: outer_pte_def nth_append)
    have o2: "outer_pte ?st' (current ?st') ?i = Some (?L + ?j)"
      using pti i lpt by (simp add: outer_pte_def copy_slots_nth)
    have ne: "?L + ?j \<noteq> a" using a(1) by simp
    have da: "?D ! a = map cow (dirs st ! a)" using S(3)[OF a(1)] ain by simp
    have g1: "get_pte ?st' a ?pos = cow (get_pte st a ?pos)"
      using a pos da S(1) by (simp add: get_pte_def nth_append)
    have g2: "get_pte ?st' (?L + ?j) ?pos = get_pte ?st' a ?pos"
      using a S(1) j by (simp add: get_pte_def nth_append)
    have c: "cow (get_pte st a ?pos) =
               (if writable (get_pte st a ?pos)
                then (get_pte st a ?pos)\<lparr>writable := False, private' := True\<rparr>
                else get_pte st a ?pos)"
      using v by (simp add: cow_def)
    show ?thesis using o1 o2 ne g1 g2 c by (metis (no_types, lifting))
  qed
  have "current ?st' = length (procs st)" "pid (procs ?st' ! current ?st') = npid" by simp_all
  with res ok fresh entries show ?thesis by blast
qed

theorem fork_duplicates_table_witness:
  "config_ok small \<and> state_ok small one_page \<and>
   distinct (processes one_page) \<and>
   list_for_each_entry (procs one_page) 1 (processes one_page) = None \<and>
   outer_pte one_page (current one_page) 0 = Some 0 \<and>
   get_pte one_page 0 0 = \<lparr>valid = True, writable = True, pfn = 0, private' = False\<rparr> \<and>
   switch_process small one_page 1 = Inr forked \<and> current forked = 1 \<and>
   outer_pte forked 0 0 = Some 0 \<and> outer_pte forked 1 0 = Some 1 \<and>
   get_pte forked 0 0 = \<lparr>valid = True, writable = False, pfn = 0, private' = True\<rparr> \<and>
   get_pte forked 1 0 = \<lparr>valid = True, writable = False, pfn = 0, private' = True\<rparr>"
proof -
  have h: "list_for_each_entry (procs one_page) 1 (processes one_page) = None" by code_simp
  have sw: "switch_process small one_page 1 = Inr forked" by code_simp
  have i: "0 div NR_PTES_PER_PAGE small < NR_PTES_PER_PAGE small" by code_simp
  have o: "outer_pte one_page (current one_page) (0 div NR_PTES_PER_PAGE small) = Some 0" by code_simp
  have e: "get_pte one_page 0 (0 mod NR_PTES_PER_PAGE small) =
             \<lparr>valid = True, writable = True, pfn = 0, private' = False\<rparr>"
    by code_simp
  have z: "0 div NR_PTES_PER_PAGE small = 0" "0 mod NR_PTES_PER_PAGE small = 0" "current one_page = 0"
    by code_simp+
  have q: "distinct (processes one_page)" by code_simp
  from fork_duplicates_table [OF config_ok_small state_ok_one_page q h] sw
  have "current forked = length (procs one_page)"
    and all: "\<forall>vpn a. vpn div NR_PTES_PER_PAGE small < NR_PTES_PER_PAGE small \<longrightarrow>
              outer_pte one_page (current one_page) (vpn div NR_PTES_PER_PAGE small) = Some a \<longrightarrow>
              valid (get_pte one_page a (vpn mod NR_PTES_PER_PAGE small)) \<longrightarrow>
              (\<exists>b. outer_pte forked (current one_page) (vpn div NR_PTES_PER_PAGE small) = Some a \<and>
                   outer_pte forked (current forked) (vpn div NR_PTES_PER_PAGE small) = Some b \<and> b \<noteq> a \<and>
                   get_pte forked a (vpn mod NR_PTES_PER_PAGE small) =
                     (if writable (get_pte one_page a (vpn mod NR_PTES_PER_PAGE small))
                      then (get_pte one_page a (vpn mod NR_PTES_PER_PAGE small))\<lparr>writable := False, private' := True\<rparr>
                      else get_pte one_page a (vpn mod NR_PTES_PER_PAGE small)) \<and>
                   get_pte forked b (vpn mod NR_PTES_PER_PAGE small) =
                     get_pte forked a (vpn mod NR_PTES_PER_PAGE small))"
    by auto
  have cur: "current forked = 1" by code_simp
  from all[rule_format, OF i o] e
  obtain b where b: "outer_pte forked 0 0 = Some 0" "outer_pte forked 1 0 = Some b"
    "get_pte forked 0 0 = \<lparr>valid = True, writable = False, pfn = 0, private' = True\<rparr>"
    "get_pte forked b 0 = get_pte forked 0 0"
    unfolding z cur by auto
  have "outer_pte forked 1 0 = Some 1" by code_simp
  with b(2) have "b = 1" by simp
  with b show ?thesis
    using config_ok_small state_ok_one_page q h sw cur o e unfolding z by simp
qed

section \<open>Frame accounting\<close>

text \<open>
  C1. After any sequence of calls the count of a frame should be the number of valid
  entries, over the tables of all processes, that name it. On the small machine process
  0 maps pages 0 and 1, process 1 is forked and writes to page 0. The write fault lowers
  the count of frame 0 from 2 to 1 and \<^verbatim>\<open>alloc_page\<close> returns \<^verbatim>\<open>-1\<close> although frame 2 is
  free, so nothing is installed: page 0 of process 0 and page 0 of process 1 are both
  valid on frame 0, and the count of frame 0 is 1. No branch of the run depends on
  storage that \<^verbatim>\<open>malloc\<close> left unwritten, and no process is linked twice.
\<close>

theorem write_fault_loses_count:
  "run small (init_state small) [Alloc 0 3, Alloc 1 3, Switch 1, Fault 0 (RW_WRITE small)] =
     Inr count_lost \<and>
   outer_pte count_lost 0 0 = Some 0 \<and>
   valid (get_pte count_lost 0 0) \<and> pfn (get_pte count_lost 0 0) = 0 \<and>
   outer_pte count_lost 1 0 = Some 1 \<and>
   valid (get_pte count_lost 1 0) \<and> pfn (get_pte count_lost 1 0) = 0 \<and>
   refs count_lost 0 = 2 \<and>
   unat (mapcounts count_lost ! 0) = 1"
  by code_simp

end
